theory Spec2Isabelle
  imports Main "HOL-Library.Multiset"
begin

section \<open>Data model\<close>

text \<open>
  The persisted schema (\<^verbatim>\<open>db/database.sql\<close>) has two tables.  A row of \<^verbatim>\<open>jobs\<close> is
  \<^verbatim>\<open>(id UUID PRIMARY KEY, type, command, status, started_at DEFAULT NOW(), finished_at)\<close>,
  a row of \<^verbatim>\<open>job_logs\<close> is \<^verbatim>\<open>(job_id REFERENCES jobs(id), timestamp DEFAULT NOW(), stream, data)\<close>.
  The \<^verbatim>\<open>CHECK\<close> constraints on \<^verbatim>\<open>type\<close>, \<^verbatim>\<open>status\<close> and \<^verbatim>\<open>stream\<close> are the three
  enumerations below.  Timestamps are natural numbers; a UUID is the string that
  \<^verbatim>\<open>uuidv4()\<close> returned.  Column names carry the prefix \<open>j_\<close> or \<open>l_\<close> of their table.
\<close>

datatype job_type = Local | Ssh

datatype job_status = Running | Success | Failed

datatype stream = Stdout | Stderr

record job =
  j_id :: string
  j_type :: job_type
  j_command :: string
  j_status :: job_status
  j_started_at :: nat
  j_finished_at :: "nat option"

record job_log =
  l_job_id :: string
  l_timestamp :: nat
  l_stream :: stream
  l_data :: string

text \<open>An entry of the \<^verbatim>\<open>COMMANDS\<close> object literal: \<^verbatim>\<open>{ type, cmd, args }\<close>.\<close>

record exec_spec =
  c_type :: job_type
  c_cmd :: string
  c_args :: "string list"

text \<open>
  The payloads of \<^verbatim>\<open>socket.emit\<close>: \<^verbatim>\<open>error {message}\<close>, \<^verbatim>\<open>job-started {jobId, command}\<close>,
  \<^verbatim>\<open>job-log {jobId, stream, data}\<close>, \<^verbatim>\<open>job-finished {jobId, status, exitCode}\<close>.  The exit
  code that Node passes to a \<^verbatim>\<open>close\<close> listener is a number, or \<^verbatim>\<open>null\<close> when the child was
  ended by a signal: \<open>None\<close> stands for \<^verbatim>\<open>null\<close>.
\<close>

datatype event =
    Error string
  | JobStarted string string
  | JobLog string stream string
  | JobFinished string job_status "int option"

section \<open>The command registry\<close>

text \<open>
  \<^verbatim>\<open>COMMANDS[key]\<close> is a property read on an ordinary object literal.  It finds the three
  own properties, and, for a key that is not an own property, whatever
  \<^verbatim>\<open>Object.prototype\<close> holds under that name.  Those inherited values are functions (or,
  for \<^verbatim>\<open>__proto__\<close>, the prototype object itself): all truthy, none with a \<^verbatim>\<open>cmd\<close> or
  \<^verbatim>\<open>args\<close> property.  Any other key reads as \<^verbatim>\<open>undefined\<close>.
\<close>

datatype lookup = Undefined | Own exec_spec | Inherited

definition Object_prototype_names :: "string list" where
  "Object_prototype_names =
    [''constructor'', ''__defineGetter__'', ''__defineSetter__'', ''hasOwnProperty'',
     ''__lookupGetter__'', ''__lookupSetter__'', ''isPrototypeOf'', ''propertyIsEnumerable'',
     ''toString'', ''valueOf'', ''__proto__'', ''toLocaleString'']"

definition COMMANDS :: "(string \<times> exec_spec) list" where
  "COMMANDS =
    [(''vm-status'', \<lparr>c_type = Local, c_cmd = ''echo'',
        c_args = [''Simulating make status...done.'']\<rparr>),
     (''vm-logs'', \<lparr>c_type = Local, c_cmd = ''echo'',
        c_args = [''Simulating make logs...fake log output.'']\<rparr>),
     (''docker-ps'', \<lparr>c_type = Ssh, c_cmd = ''echo'',
        c_args = [''Simulating ssh command...container up.'']\<rparr>)]"

definition COMMANDS_get :: "string \<Rightarrow> lookup" where
  "COMMANDS_get key =
    (case map_of COMMANDS key of
       Some c \<Rightarrow> Own c
     | None \<Rightarrow> if key \<in> set Object_prototype_names then Inherited else Undefined)"

text \<open>\<^verbatim>\<open>Array.prototype.join\<close> with a separator.\<close>

fun join :: "string list \<Rightarrow> string \<Rightarrow> string" where
  "join [] sep = []"
| "join [x] sep = x"
| "join (x # y # ys) sep = x @ sep @ join (y # ys) sep"

text \<open>The template literal of line 55: \<^verbatim>\<open>`${c.cmd} ${c.args.join(' ')}`\<close>.\<close>

definition cmdStr :: "exec_spec \<Rightarrow> string" where
  "cmdStr c = c_cmd c @ '' '' @ join (c_args c) '' ''"

section \<open>The server state and what the environment decides\<close>

text \<open>
  What the store answers to one \<^verbatim>\<open>db.query\<close>: the promise resolves, the statement having
  run at database time \<open>now\<close>, or it rejects with an error whose \<^verbatim>\<open>message\<close> is given.
  What \<^verbatim>\<open>spawn\<close> does: it returns a child process, or it throws.
\<close>

datatype db_result = DbOk nat | DbErr string

datatype spawn_result = Spawned | SpawnThrew string

text \<open>
  The three writes of \<^verbatim>\<open>server.js\<close> with their parameter arrays:
  line 57 \<^verbatim>\<open>INSERT INTO jobs (id, type, command, status)\<close>,
  lines 62 and 67 \<^verbatim>\<open>INSERT INTO job_logs (job_id, stream, data)\<close>,
  line 72 \<^verbatim>\<open>UPDATE jobs SET status = $1, finished_at = NOW() WHERE id = $2\<close>.
\<close>

datatype query =
    InsertJob string job_type string job_status
  | InsertLog string stream string
  | UpdateJob job_status string

text \<open>
  An \<^verbatim>\<open>async\<close> listener suspended at its \<^verbatim>\<open>await db.query(...)\<close>: the rest of its body,
  with the variables it closes over.
  \<^item> \<open>K_spawn\<close>: lines 58 to 74 (and the \<^verbatim>\<open>catch\<close> of line 76) of the
    \<^verbatim>\<open>execute-command\<close> listener, with \<^verbatim>\<open>socket\<close>, \<^verbatim>\<open>id\<close>, \<^verbatim>\<open>c\<close>, and what
    \<^verbatim>\<open>spawn\<close> is going to do;
  \<^item> \<open>K_log\<close>: line 63 or 68 of a \<^verbatim>\<open>data\<close> listener, with \<^verbatim>\<open>socket\<close>, \<^verbatim>\<open>id\<close>, the
    stream and \<^verbatim>\<open>chunk\<close>;
  \<^item> \<open>K_finished\<close>: line 73 of the \<^verbatim>\<open>close\<close> listener, with \<^verbatim>\<open>socket\<close>, \<^verbatim>\<open>id\<close>,
    \<^verbatim>\<open>status\<close> and \<^verbatim>\<open>code\<close>.
\<close>

datatype cont =
    K_spawn nat string exec_spec spawn_result
  | K_log nat string stream string
  | K_finished nat string job_status "int option"

text \<open>
  A child process whose listeners were registered at lines 60 to 74: the socket and
  job id the listeners close over, and whether \<^verbatim>\<open>close\<close> is still to come.
\<close>

record child =
  p_sock :: nat
  p_job :: string
  p_open :: bool

text \<open>
  The state of the server:
  \<^item> \<open>jobs\<close>, \<open>job_logs\<close>: the two tables, rows in insertion order;
  \<^item> \<open>emitted\<close>: every \<^verbatim>\<open>socket.emit\<close> so far, oldest first, with the socket it went to;
  \<^item> \<open>issued\<close>: every \<^verbatim>\<open>db.query\<close> write so far, oldest first; the position of a
    query in this list identifies it;
  \<^item> \<open>pending\<close>: the queries the store has not answered yet, each with the listener
    body awaiting it;
  \<^item> \<open>children\<close>: the spawned processes; the position in the list identifies one;
  \<^item> \<open>unhandled\<close>: the messages of the rejections of listener promises.  No caller
    awaits a listener, so nothing in \<^verbatim>\<open>server.js\<close> observes them.
\<close>

record server =
  jobs :: "job list"
  job_logs :: "job_log list"
  emitted :: "(nat \<times> event) list"
  issued :: "query list"
  pending :: "(nat \<times> query \<times> cont) list"
  children :: "child list"
  unhandled :: "string list"

definition init :: server where
  "init = \<lparr>jobs = [], job_logs = [], emitted = [], issued = [], pending = [],
            children = [], unhandled = []\<rparr>"

section \<open>The store\<close>

text \<open>
  The effect of one statement that runs at time \<open>now\<close>.  The primary key of \<^verbatim>\<open>jobs\<close> and
  the foreign key of \<^verbatim>\<open>job_logs\<close> reject the insert that violates them.  The columns
  an insert does not name take their defaults: \<^verbatim>\<open>started_at\<close> and \<^verbatim>\<open>timestamp\<close> are
  \<^verbatim>\<open>NOW()\<close>, \<^verbatim>\<open>finished_at\<close> is \<^verbatim>\<open>NULL\<close>.
\<close>

definition job_ids :: "server \<Rightarrow> string set" where
  "job_ids s = j_id ` set (jobs s)"

definition update_row :: "job_status \<Rightarrow> nat \<Rightarrow> string \<Rightarrow> job \<Rightarrow> job" where
  "update_row st now i j =
    (if j_id j = i then j\<lparr>j_status := st, j_finished_at := Some now\<rparr> else j)"

fun db_exec :: "query \<Rightarrow> nat \<Rightarrow> server \<Rightarrow> string + server" where
  "db_exec (InsertJob i ty c st) now s =
    (if i \<in> job_ids s
     then Inl ''duplicate key value violates unique constraint jobs_pkey''
     else Inr (s\<lparr>jobs := jobs s @
       [\<lparr>j_id = i, j_type = ty, j_command = c, j_status = st,
         j_started_at = now, j_finished_at = None\<rparr>]\<rparr>))"
| "db_exec (InsertLog i sm d) now s =
    (if i \<notin> job_ids s
     then Inl ''insert on table job_logs violates foreign key constraint job_logs_job_id_fkey''
     else Inr (s\<lparr>job_logs := job_logs s @
       [\<lparr>l_job_id = i, l_timestamp = now, l_stream = sm, l_data = d\<rparr>]\<rparr>))"
| "db_exec (UpdateJob st i) now s =
    Inr (s\<lparr>jobs := map (update_row st now i) (jobs s)\<rparr>)"

section \<open>The listeners of \<^verbatim>\<open>server.js\<close>\<close>

definition emit :: "nat \<Rightarrow> event \<Rightarrow> server \<Rightarrow> server" where
  "emit sk e s = s\<lparr>emitted := emitted s @ [(sk, e)]\<rparr>"

text \<open>\<^verbatim>\<open>await db.query(q)\<close>: the query goes to the pool and the listener suspends.\<close>

definition db_query :: "query \<Rightarrow> cont \<Rightarrow> server \<Rightarrow> server" where
  "db_query q k s =
    s\<lparr>issued := issued s @ [q], pending := pending s @ [(length (issued s), q, k)]\<rparr>"

text \<open>A listener's promise rejects: the rest of its body does not run.\<close>

definition reject :: "string \<Rightarrow> server \<Rightarrow> server" where
  "reject m s = s\<lparr>unhandled := unhandled s @ [m]\<rparr>"

text \<open>
  Lines 48 to 57, up to the \<^verbatim>\<open>await\<close>.  The guard \<^verbatim>\<open>if (!c)\<close> catches \<^verbatim>\<open>undefined\<close> only.
  For an inherited property \<^verbatim>\<open>c.args\<close> is \<^verbatim>\<open>undefined\<close> and \<^verbatim>\<open>c.args.join\<close> of line 55
  throws a \<^verbatim>\<open>TypeError\<close>; line 55 is outside the \<^verbatim>\<open>try\<close>, so the listener rejects (the
  message is written here without the quotes Node puts around \<^verbatim>\<open>join\<close>).
  \<open>uuid\<close> is what \<^verbatim>\<open>uuidv4()\<close> returns at line 54.
\<close>

definition execute_command :: "nat \<Rightarrow> string \<Rightarrow> string \<Rightarrow> spawn_result \<Rightarrow> server \<Rightarrow> server" where
  "execute_command sk key uuid sp s =
    (case COMMANDS_get key of
       Undefined \<Rightarrow> emit sk (Error (''Unknown command: '' @ key)) s
     | Inherited \<Rightarrow>
         reject ''Cannot read properties of undefined (reading join)'' s
     | Own c \<Rightarrow>
         db_query (InsertJob uuid (c_type c) (cmdStr c) Running) (K_spawn sk uuid c sp) s)"

text \<open>
  Lines 60 to 62 and 65 to 67: a \<^verbatim>\<open>data\<close> listener up to its \<^verbatim>\<open>await\<close>.  The chunk is
  \<^verbatim>\<open>d.toString()\<close>.
\<close>

definition on_data :: "nat \<Rightarrow> string \<Rightarrow> stream \<Rightarrow> string \<Rightarrow> server \<Rightarrow> server" where
  "on_data sk i sm chunk s = db_query (InsertLog i sm chunk) (K_log sk i sm chunk) s"

text \<open>Line 71: \<^verbatim>\<open>code === 0 ? 'success' : 'failed'\<close>.\<close>

definition final_status :: "int option \<Rightarrow> job_status" where
  "final_status code = (if code = Some 0 then Success else Failed)"

text \<open>Lines 70 to 72: the \<^verbatim>\<open>close\<close> listener up to its \<^verbatim>\<open>await\<close>.\<close>

definition on_close :: "nat \<Rightarrow> string \<Rightarrow> int option \<Rightarrow> server \<Rightarrow> server" where
  "on_close sk i code s =
    db_query (UpdateJob (final_status code) i) (K_finished sk i (final_status code) code) s"

text \<open>
  The rest of a listener once its query has succeeded.
  \<^item> Lines 58 to 74: emit \<^verbatim>\<open>job-started\<close>, then \<^verbatim>\<open>spawn\<close>; when \<^verbatim>\<open>spawn\<close> throws, the
    \<^verbatim>\<open>catch\<close> of line 76 emits \<^verbatim>\<open>error\<close> with the message, otherwise the three listeners
    are registered on the new child.
  \<^item> Lines 63 and 68: emit \<^verbatim>\<open>job-log\<close>.
  \<^item> Line 73: emit \<^verbatim>\<open>job-finished\<close>.
\<close>

fun resume :: "cont \<Rightarrow> server \<Rightarrow> server" where
  "resume (K_spawn sk i c sp) s =
    (let s1 = emit sk (JobStarted i (cmdStr c)) s in
     case sp of
       SpawnThrew m \<Rightarrow> emit sk (Error m) s1
     | Spawned \<Rightarrow> s1\<lparr>children := children s1 @ [\<lparr>p_sock = sk, p_job = i, p_open = True\<rparr>]\<rparr>)"
| "resume (K_log sk i sm chunk) s = emit sk (JobLog i sm chunk) s"
| "resume (K_finished sk i st code) s = emit sk (JobFinished i st code) s"

text \<open>
  The rest of a listener once its query has been rejected with message \<open>m\<close>.  Only the
  \<^verbatim>\<open>await\<close> of line 57 is inside a \<^verbatim>\<open>try\<close>; the \<^verbatim>\<open>data\<close> and \<^verbatim>\<open>close\<close> listeners have none,
  so their promise rejects and lines 63, 68 and 73 do not run.
\<close>

fun throw :: "cont \<Rightarrow> string \<Rightarrow> server \<Rightarrow> server" where
  "throw (K_spawn sk i c sp) m s = emit sk (Error m) s"
| "throw (K_log sk i sm chunk) m s = reject m s"
| "throw (K_finished sk i st code) m s = reject m s"

section \<open>One turn of the event loop\<close>

text \<open>
  The environment decides what happens next: a client sends \<^verbatim>\<open>execute-command\<close> on a
  socket, the store answers a pending query, a child writes a chunk to one of its
  streams, or a child closes.  Node's contract for a child process is built into
  \<open>step\<close>: \<^verbatim>\<open>data\<close> and \<^verbatim>\<open>close\<close> reach only a child that exists, \<^verbatim>\<open>close\<close> comes once,
  and no \<^verbatim>\<open>data\<close> follows it.  \<^verbatim>\<open>server.js\<close> registers no \<^verbatim>\<open>error\<close> listener on a child, so a
  launch failure that Node reports by that event reaches no code of the server; a
  failure that \<^verbatim>\<open>spawn\<close> throws is the \<open>SpawnThrew\<close> of the request.  An answer to a query
  that is not pending is ignored.  \<^verbatim>\<open>db\<close> is a connection pool (line 22): queries that
  are pending together run on different connections, so their answers may come in
  either order.  A write takes effect when the store answers it.
\<close>

datatype env_event =
    ExecuteCommand nat string string spawn_result
  | Resolved nat db_result
  | Data nat stream string
  | Close nat "int option"

definition unpend :: "nat \<Rightarrow> server \<Rightarrow> server" where
  "unpend n s = s\<lparr>pending := filter (\<lambda>p. fst p \<noteq> n) (pending s)\<rparr>"

definition settle :: "nat \<Rightarrow> db_result \<Rightarrow> server \<Rightarrow> server" where
  "settle n r s =
    (case map_of (pending s) n of
       None \<Rightarrow> s
     | Some (q, k) \<Rightarrow>
         (let s1 = unpend n s in
          case r of
            DbErr m \<Rightarrow> throw k m s1
          | DbOk now \<Rightarrow>
              (case db_exec q now s1 of
                 Inl m \<Rightarrow> throw k m s1
               | Inr s2 \<Rightarrow> resume k s2)))"

fun step :: "env_event \<Rightarrow> server \<Rightarrow> server" where
  "step (ExecuteCommand sk key uuid sp) s = execute_command sk key uuid sp s"
| "step (Resolved n r) s = settle n r s"
| "step (Data pid sm chunk) s =
    (if pid < length (children s) \<and> p_open (children s ! pid)
     then on_data (p_sock (children s ! pid)) (p_job (children s ! pid)) sm chunk s
     else s)"
| "step (Close pid code) s =
    (if pid < length (children s) \<and> p_open (children s ! pid)
     then on_close (p_sock (children s ! pid)) (p_job (children s ! pid)) code
            (s\<lparr>children := (children s)[pid := (children s ! pid)\<lparr>p_open := False\<rparr>]\<rparr>)
     else s)"

definition run :: "env_event list \<Rightarrow> server \<Rightarrow> server" where
  "run evs s = fold step evs s"

section \<open>The history query\<close>

text \<open>
  Lines 38 to 45.  The handler reads nothing from \<^verbatim>\<open>req\<close>: the statement is the fixed
  string \<^verbatim>\<open>SELECT id, type, command, status, started_at, finished_at FROM jobs
  ORDER BY started_at DESC LIMIT 10\<close>.  The selected columns are all the columns of
  the table, so a summary is a row.  \<open>limit\<close> is the query parameter of the request,
  when the request has one.  Rows of equal \<^verbatim>\<open>started_at\<close> come in an order SQL leaves
  open; here the later inserted comes first.
\<close>

datatype response = Json "job list" | Status500 string

definition order_by_started_at_desc :: "job list \<Rightarrow> job list" where
  "order_by_started_at_desc js = rev (sort_key j_started_at js)"

definition get_api_jobs :: "nat option \<Rightarrow> db_result \<Rightarrow> server \<Rightarrow> response" where
  "get_api_jobs limit r s =
    (case r of
       DbErr m \<Rightarrow> Status500 m
     | DbOk now \<Rightarrow> Json (take 10 (order_by_started_at_desc (jobs s))))"

section \<open>Observations on a state\<close>

text \<open>
  What the properties below count and compare: the job an event, a query or a
  suspended listener belongs to, and how many of each kind a state holds for one job.
\<close>

fun job_of :: "event \<Rightarrow> string option" where
  "job_of (Error m) = None"
| "job_of (JobStarted i c) = Some i"
| "job_of (JobLog i sm d) = Some i"
| "job_of (JobFinished i st code) = Some i"

fun is_started :: "string \<Rightarrow> event \<Rightarrow> bool" where
  "is_started i (JobStarted i' c) = (i' = i)"
| "is_started i e = False"

fun is_finished :: "string \<Rightarrow> event \<Rightarrow> bool" where
  "is_finished i (JobFinished i' st code) = (i' = i)"
| "is_finished i e = False"

fun is_update :: "string \<Rightarrow> query \<Rightarrow> bool" where
  "is_update i (UpdateJob st i') = (i' = i)"
| "is_update i q = False"

fun is_append :: "string \<Rightarrow> query \<Rightarrow> bool" where
  "is_append i (InsertLog i' sm d) = (i' = i)"
| "is_append i q = False"

fun cont_job :: "cont \<Rightarrow> string option" where
  "cont_job (K_spawn sk i c sp) = None"
| "cont_job (K_log sk i sm d) = Some i"
| "cont_job (K_finished sk i st code) = Some i"

fun finishes :: "string \<Rightarrow> cont \<Rightarrow> bool" where
  "finishes i (K_finished sk i' st code) = (i' = i)"
| "finishes i k = False"

fun awaits :: "query \<Rightarrow> cont \<Rightarrow> bool" where
  "awaits (InsertJob i ty c st) (K_spawn sk i' c' sp) =
     (i' = i \<and> ty = c_type c' \<and> c = cmdStr c' \<and> st = Running)"
| "awaits (InsertLog i sm d) (K_log sk i' sm' d') = (i' = i \<and> sm' = sm \<and> d' = d)"
| "awaits (UpdateJob st i) (K_finished sk i' st' code) =
     (i' = i \<and> st' = st \<and> st = final_status code)"
| "awaits q k = False"

definition events :: "server \<Rightarrow> event list" where
  "events s = map snd (emitted s)"

definition started :: "string \<Rightarrow> server \<Rightarrow> nat" where
  "started i s = length (filter (is_started i) (events s))"

definition finished :: "string \<Rightarrow> server \<Rightarrow> nat" where
  "finished i s = length (filter (is_finished i) (events s))"

definition job_events :: "string \<Rightarrow> server \<Rightarrow> event list" where
  "job_events i s = filter (\<lambda>e. job_of e = Some i) (events s)"

definition updates :: "string \<Rightarrow> server \<Rightarrow> nat" where
  "updates i s = length (filter (is_update i) (issued s))"

definition open_children :: "string \<Rightarrow> server \<Rightarrow> nat" where
  "open_children i s = length (filter (\<lambda>c. p_job c = i \<and> p_open c) (children s))"

definition all_children :: "string \<Rightarrow> server \<Rightarrow> nat" where
  "all_children i s = length (filter (\<lambda>c. p_job c = i) (children s))"

definition pending_finish :: "string \<Rightarrow> server \<Rightarrow> nat" where
  "pending_finish i s = length (filter (\<lambda>p. finishes i (snd (snd p))) (pending s))"

definition terminal_in :: "string \<Rightarrow> job list \<Rightarrow> bool" where
  "terminal_in i js = (\<exists>j\<in>set js. j_id j = i \<and> j_status j \<noteq> Running)"

definition terminal :: "string \<Rightarrow> server \<Rightarrow> bool" where
  "terminal i s = terminal_in i (jobs s)"

definition running_in :: "string \<Rightarrow> job list \<Rightarrow> bool" where
  "running_in i js =
    (\<forall>j\<in>set js. j_id j = i \<longrightarrow> j_status j = Running \<and> j_finished_at j = None)"

definition row_running :: "string \<Rightarrow> server \<Rightarrow> bool" where
  "row_running i s = running_in i (jobs s)"

section \<open>Invariants of the event loop\<close>

text \<open>
  Properties every state reached from \<open>init\<close> has.  \<open>inv_pending\<close>: a pending query
  is one that was issued, and the listener awaiting it is the one that issued it
  (\<open>awaits\<close>).  \<open>inv_ref\<close>: whatever mentions a job
  (a child, a suspended \<^verbatim>\<open>data\<close> or \<^verbatim>\<open>close\<close> listener, an emitted job event) mentions a
  row of \<^verbatim>\<open>jobs\<close>.  \<open>inv_rows\<close>: the row invariant of the data model.  \<open>inv_count\<close>,
  \<open>inv_fin\<close>: how many events, children and finalize writes one job has.
  \<open>inv_first\<close>, \<open>inv_order\<close>: the order of a job's events and of its writes.
  \<open>stuck\<close>: a job that no listener is going to finalize.
\<close>

definition inv_pending :: "server \<Rightarrow> bool" where
  "inv_pending s =
    (\<forall>p\<in>set (pending s).
       fst p < length (issued s) \<and> awaits (fst (snd p)) (snd (snd p)))"

definition inv_ref :: "server \<Rightarrow> bool" where
  "inv_ref s =
    ((\<forall>c\<in>set (children s). p_job c \<in> job_ids s) \<and>
     (\<forall>p\<in>set (pending s). \<forall>i. cont_job (snd (snd p)) = Some i \<longrightarrow> i \<in> job_ids s) \<and>
     (\<forall>e\<in>set (events s). \<forall>i. job_of e = Some i \<longrightarrow> i \<in> job_ids s))"

definition inv_rows :: "server \<Rightarrow> bool" where
  "inv_rows s = (\<forall>j\<in>set (jobs s). (j_finished_at j \<noteq> None) = (j_status j \<noteq> Running))"

definition inv_count :: "string \<Rightarrow> server \<Rightarrow> bool" where
  "inv_count i s =
    (started i s = (if i \<in> job_ids s then 1 else 0) \<and>
     all_children i s \<le> started i s \<and>
     updates i s + open_children i s = all_children i s \<and>
     finished i s + pending_finish i s \<le> updates i s)"

definition inv_fin :: "string \<Rightarrow> server \<Rightarrow> bool" where
  "inv_fin i s = (finished i s = (if terminal i s then 1 else 0))"

definition inv_first :: "string \<Rightarrow> server \<Rightarrow> bool" where
  "inv_first i s = (job_events i s = [] \<or> is_started i (hd (job_events i s)))"

definition inv_order :: "string \<Rightarrow> server \<Rightarrow> bool" where
  "inv_order i s = sorted_wrt (\<lambda>a b. \<not> (is_update i a \<and> is_append i b)) (issued s)"

definition stuck :: "string \<Rightarrow> server \<Rightarrow> bool" where
  "stuck i s =
    (i \<in> job_ids s \<and> open_children i s = 0 \<and> pending_finish i s = 0 \<and> row_running i s)"

text \<open>
  \<open>job_rows\<close>: the rows of one job.  \<open>quiet\<close>: a job with a row, no open child and no
  finalize write pending.
\<close>

definition job_rows :: "string \<Rightarrow> server \<Rightarrow> job list" where
  "job_rows i s = filter (\<lambda>j. j_id j = i) (jobs s)"

definition quiet :: "string \<Rightarrow> server \<Rightarrow> bool" where
  "quiet i s = (i \<in> job_ids s \<and> open_children i s = 0 \<and> pending_finish i s = 0)"

definition inv :: "server \<Rightarrow> bool" where
  "inv s = (inv_pending s \<and> inv_ref s \<and> inv_rows s \<and>
     (\<forall>i. inv_count i s \<and> inv_fin i s \<and> inv_first i s \<and> inv_order i s))"

section \<open>Concrete inputs\<close>

text \<open>
  Inputs the theorems below are evaluated at.  \<open>started_a\<close>: a client asks for
  \<^verbatim>\<open>vm-status\<close>, the store acknowledges the insert at time 1, so job \<open>a\<close> is running and
  its child is process 0.  \<open>fifteen_jobs\<close>: a store that holds fifteen jobs started at
  fifteen different times.  \<open>json_rows\<close> reads the rows of a response.
\<close>

definition started_a :: "env_event list" where
  "started_a = [ExecuteCommand 0 ''vm-status'' ''a'' Spawned, Resolved 0 (DbOk 1)]"

definition job_row :: "string \<Rightarrow> nat \<Rightarrow> job" where
  "job_row i t = \<lparr>j_id = i, j_type = Local, j_command = ''echo hello'', j_status = Running,
     j_started_at = t, j_finished_at = None\<rparr>"

definition fifteen_jobs :: server where
  "fifteen_jobs = init\<lparr>jobs := map (\<lambda>k. job_row (replicate (Suc k) CHR ''a'') k)
     [3, 0, 14, 7, 1, 9, 12, 5, 2, 13, 4, 11, 6, 10, 8]\<rparr>"

definition json_rows :: "response \<Rightarrow> job list" where
  "json_rows r = (case r of Json rows \<Rightarrow> rows | Status500 m \<Rightarrow> [])"

section \<open>Lemmas on the store and the event loop\<close>

lemma final_status_terminal: "final_status code \<noteq> Running"
  by (simp add: final_status_def)

lemma map_of_unpend_other:
  "n' \<noteq> n \<Longrightarrow> map_of (filter (\<lambda>p. fst p \<noteq> n') ps) n = map_of ps n"
  by (induction ps) auto

lemma map_of_unpend_same:
  "map_of (filter (\<lambda>p. fst p \<noteq> n) ps) n = None"
  by (induction ps) auto

lemma settle_elim [consumes 1, case_names ignored insert_fail spawned threw log_fail log_ok fin_fail fin_ok]:
  assumes "inv_pending s"
  obtains
    (ignored) "map_of (pending s) n = None" "settle n r s = s"
  | (insert_fail) sk i c sp m where
      "map_of (pending s) n = Some (InsertJob i (c_type c) (cmdStr c) Running, K_spawn sk i c sp)"
      "settle n r s = emit sk (Error m) (unpend n s)"
      "r = DbErr m \<or> (\<exists>now. r = DbOk now) \<and> i \<in> job_ids s"
  | (spawned) sk i c now where
      "map_of (pending s) n =
         Some (InsertJob i (c_type c) (cmdStr c) Running, K_spawn sk i c Spawned)"
      "r = DbOk now" "i \<notin> job_ids s"
      "settle n r s = (emit sk (JobStarted i (cmdStr c)) ((unpend n s)\<lparr>jobs := jobs s @
         [\<lparr>j_id = i, j_type = c_type c, j_command = cmdStr c, j_status = Running,
           j_started_at = now, j_finished_at = None\<rparr>]\<rparr>))
         \<lparr>children := children s @ [\<lparr>p_sock = sk, p_job = i, p_open = True\<rparr>]\<rparr>"
  | (threw) sk i c m now where
      "map_of (pending s) n =
         Some (InsertJob i (c_type c) (cmdStr c) Running, K_spawn sk i c (SpawnThrew m))"
      "r = DbOk now" "i \<notin> job_ids s"
      "settle n r s = emit sk (Error m) (emit sk (JobStarted i (cmdStr c))
         ((unpend n s)\<lparr>jobs := jobs s @
         [\<lparr>j_id = i, j_type = c_type c, j_command = cmdStr c, j_status = Running,
           j_started_at = now, j_finished_at = None\<rparr>]\<rparr>))"
  | (log_fail) sk i sm d m where
      "map_of (pending s) n = Some (InsertLog i sm d, K_log sk i sm d)"
      "settle n r s = reject m (unpend n s)"
      "r = DbErr m \<or> (\<exists>now. r = DbOk now) \<and> i \<notin> job_ids s"
  | (log_ok) sk i sm d now where
      "map_of (pending s) n = Some (InsertLog i sm d, K_log sk i sm d)"
      "r = DbOk now" "i \<in> job_ids s"
      "settle n r s = emit sk (JobLog i sm d) ((unpend n s)\<lparr>job_logs := job_logs s @
         [\<lparr>l_job_id = i, l_timestamp = now, l_stream = sm, l_data = d\<rparr>]\<rparr>)"
  | (fin_fail) sk i code m where
      "map_of (pending s) n =
         Some (UpdateJob (final_status code) i, K_finished sk i (final_status code) code)"
      "r = DbErr m"
      "settle n r s = reject m (unpend n s)"
  | (fin_ok) sk i code now where
      "map_of (pending s) n =
         Some (UpdateJob (final_status code) i, K_finished sk i (final_status code) code)"
      "r = DbOk now"
      "settle n r s = emit sk (JobFinished i (final_status code) code)
         ((unpend n s)\<lparr>jobs := map (update_row (final_status code) now i) (jobs s)\<rparr>)"
proof (cases "map_of (pending s) n")
  case None
  then show ?thesis using ignored by (simp add: settle_def)
next
  case (Some qk)
  obtain q k where qk: "qk = (q, k)" by (cases qk)
  from Some qk have "(n, q, k) \<in> set (pending s)" by (auto dest: map_of_SomeD)
  with assms have aw: "awaits q k" by (auto simp: inv_pending_def)
  show ?thesis
  proof (cases q)
    case (InsertJob i ty c st)
    with aw obtain sk c' sp where k: "k = K_spawn sk i c' sp" "ty = c_type c'" "c = cmdStr c'" "st = Running"
      by (cases k) auto
    have 1: "map_of (pending s) n =
        Some (InsertJob i (c_type c') (cmdStr c') Running, K_spawn sk i c' sp)"
      using Some qk InsertJob k by simp
    show ?thesis
    proof (cases r)
      case (DbOk now)
      show ?thesis
      proof (cases "i \<in> job_ids s")
        case True
        have "settle n r s = emit sk (Error ''duplicate key value violates unique constraint jobs_pkey'') (unpend n s)"
          using 1 DbOk True by (simp add: settle_def unpend_def job_ids_def)
        then show ?thesis using insert_fail 1 DbOk True by blast
      next
        case False
        show ?thesis
        proof (cases sp)
          case Spawned
          have "settle n r s = (emit sk (JobStarted i (cmdStr c')) ((unpend n s)\<lparr>jobs := jobs s @
             [\<lparr>j_id = i, j_type = c_type c', j_command = cmdStr c', j_status = Running,
               j_started_at = now, j_finished_at = None\<rparr>]\<rparr>))
             \<lparr>children := children s @ [\<lparr>p_sock = sk, p_job = i, p_open = True\<rparr>]\<rparr>"
            using 1 DbOk False Spawned
            by (simp add: settle_def unpend_def job_ids_def emit_def)
          then show ?thesis using spawned 1 DbOk False Spawned by blast
        next
          case (SpawnThrew m)
          have "settle n r s = emit sk (Error m) (emit sk (JobStarted i (cmdStr c'))
             ((unpend n s)\<lparr>jobs := jobs s @
             [\<lparr>j_id = i, j_type = c_type c', j_command = cmdStr c', j_status = Running,
               j_started_at = now, j_finished_at = None\<rparr>]\<rparr>))"
            using 1 DbOk False SpawnThrew
            by (simp add: settle_def unpend_def job_ids_def emit_def)
          then show ?thesis using threw 1 DbOk False SpawnThrew by blast
        qed
      qed
    next
      case (DbErr m)
      have "settle n r s = emit sk (Error m) (unpend n s)"
        using 1 DbErr by (simp add: settle_def)
      then show ?thesis using insert_fail 1 DbErr by blast
    qed
  next
    case (InsertLog i sm d)
    with aw obtain sk where k: "k = K_log sk i sm d"
      by (cases k) auto
    have 1: "map_of (pending s) n = Some (InsertLog i sm d, K_log sk i sm d)"
      using Some qk InsertLog k by simp
    show ?thesis
    proof (cases r)
      case (DbOk now)
      show ?thesis
      proof (cases "i \<in> job_ids s")
        case True
        have "settle n r s = emit sk (JobLog i sm d) ((unpend n s)\<lparr>job_logs := job_logs s @
         [\<lparr>l_job_id = i, l_timestamp = now, l_stream = sm, l_data = d\<rparr>]\<rparr>)"
          using 1 DbOk True by (simp add: settle_def unpend_def job_ids_def)
        then show ?thesis using log_ok 1 DbOk True by blast
      next
        case False
        have "settle n r s = reject ''insert on table job_logs violates foreign key constraint job_logs_job_id_fkey'' (unpend n s)"
          using 1 DbOk False by (simp add: settle_def unpend_def job_ids_def)
        then show ?thesis using log_fail 1 DbOk False by blast
      qed
    next
      case (DbErr m)
      have "settle n r s = reject m (unpend n s)"
        using 1 DbErr by (simp add: settle_def)
      then show ?thesis using log_fail 1 DbErr by blast
    qed
  next
    case (UpdateJob st i)
    with aw obtain sk code where k: "k = K_finished sk i st code" "st = final_status code"
      by (cases k) auto
    have 1: "map_of (pending s) n =
        Some (UpdateJob (final_status code) i, K_finished sk i (final_status code) code)"
      using Some qk UpdateJob k by simp
    show ?thesis
    proof (cases r)
      case (DbOk now)
      have "settle n r s = emit sk (JobFinished i (final_status code) code)
         ((unpend n s)\<lparr>jobs := map (update_row (final_status code) now i) (jobs s)\<rparr>)"
        using 1 DbOk by (simp add: settle_def unpend_def)
      then show ?thesis using fin_ok 1 DbOk by blast
    next
      case (DbErr m)
      have "settle n r s = reject m (unpend n s)"
        using 1 DbErr by (simp add: settle_def)
      then show ?thesis using fin_fail 1 DbErr by blast
    qed
  qed
qed

lemmas prims = emit_def reject_def db_query_def unpend_def on_data_def on_close_def

lemma inv_pending_init: "inv_pending init"
  by (simp add: inv_pending_def init_def)

lemma inv_pending_step:
  assumes "inv_pending s"
  shows "inv_pending (step e s)"
proof (cases e)
  case (ExecuteCommand sk key uuid sp)
  then show ?thesis using assms
    by (auto simp: inv_pending_def execute_command_def prims split: lookup.splits)
next
  case (Resolved n r)
  from assms show ?thesis unfolding Resolved step.simps
    by (cases rule: settle_elim[where n=n and r=r])
       (use assms in \<open>auto simp: inv_pending_def prims\<close>)
next
  case (Data pid sm d)
  then show ?thesis using assms
    by (auto simp: inv_pending_def prims)
next
  case (Close pid code)
  then show ?thesis using assms
    by (auto simp: inv_pending_def prims)
qed

lemma run_append: "run (xs @ ys) s = run ys (run xs s)"
  by (simp add: run_def)

lemma j_id_update_row: "j_id (update_row st now i j) = j_id j"
  by (simp add: update_row_def)

lemma inv_ref_init: "inv_ref init"
  by (simp add: inv_ref_def init_def events_def)

lemma inv_ref_step:
  assumes "inv_pending s" "inv_ref s"
  shows "inv_ref (step e s)"
proof (cases e)
  case (ExecuteCommand sk key uuid sp)
  then show ?thesis using assms(2)
    by (auto simp: inv_ref_def execute_command_def prims events_def job_ids_def split: lookup.splits)
next
  case (Resolved n r)
  from assms(1) show ?thesis unfolding Resolved step.simps
    by (cases rule: settle_elim[where n=n and r=r])
       (use assms(2) in \<open>auto simp: inv_ref_def prims events_def job_ids_def image_image j_id_update_row dest!: map_of_SomeD\<close>)
next
  case (Data pid sm d)
  then show ?thesis using assms(2)
    by (auto simp: inv_ref_def prims events_def job_ids_def)
next
  case (Close pid code)
  then show ?thesis using assms(2)
    by (auto simp: inv_ref_def prims events_def job_ids_def dest: set_update_subset_insert[THEN subsetD])
qed

lemma inv_rows_init: "inv_rows init"
  by (simp add: inv_rows_def init_def)

lemma inv_rows_step:
  assumes "inv_pending s" "inv_rows s"
  shows "inv_rows (step e s)"
proof (cases e)
  case (ExecuteCommand sk key uuid sp)
  then show ?thesis using assms(2)
    by (auto simp: inv_rows_def execute_command_def prims split: lookup.splits)
next
  case (Resolved n r)
  from assms(1) show ?thesis unfolding Resolved step.simps
    by (cases rule: settle_elim[where n=n and r=r])
       (use assms(2) in \<open>auto simp: inv_rows_def prims update_row_def final_status_terminal\<close>)
next
  case (Data pid sm d)
  then show ?thesis using assms(2)
    by (auto simp: inv_rows_def prims)
next
  case (Close pid code)
  then show ?thesis using assms(2)
    by (auto simp: inv_rows_def prims)
qed

lemma filter_update_len:
  "n < length xs \<Longrightarrow>
   length (filter P (xs[n := y])) + (if P (xs ! n) then 1 else 0) =
   length (filter P xs) + (if P y then 1 else 0)"
proof (induction xs arbitrary: n)
  case Nil
  then show ?case by simp
next
  case (Cons a xs)
  show ?case
  proof (cases n)
    case 0
    then show ?thesis by simp
  next
    case (Suc m)
    then have "m < length xs" using Cons.prems by simp
    from Cons.IH[OF this] show ?thesis using Suc by simp
  qed
qed

lemma filter_conj_le: "length (filter (\<lambda>x. Q x \<and> P x) xs) \<le> length (filter P xs)"
  by (induction xs) auto

lemma filter_conj_less:
  "x \<in> set xs \<Longrightarrow> P x \<Longrightarrow> \<not> Q x \<Longrightarrow>
   length (filter (\<lambda>x. Q x \<and> P x) xs) < length (filter P xs)"
proof (induction xs)
  case Nil
  then show ?case by simp
next
  case (Cons a xs)
  show ?case
  proof (cases "a = x")
    case True
    then show ?thesis using Cons.prems filter_conj_le[of Q P xs] by auto
  next
    case False
    then show ?thesis using Cons by auto
  qed
qed

lemma pending_finish_unpend_le: "pending_finish i (unpend n s) \<le> pending_finish i s"
  by (simp add: pending_finish_def unpend_def filter_conj_le)

lemma pending_finish_unpend_less:
  assumes "map_of (pending s) n = Some (q, k)" "finishes i k"
  shows "pending_finish i (unpend n s) < pending_finish i s"
proof -
  have "(n, q, k) \<in> set (pending s)" using assms(1) by (rule map_of_SomeD)
  then have "length (filter (\<lambda>x. fst x \<noteq> n \<and> finishes i (snd (snd x))) (pending s))
      < length (filter (\<lambda>p. finishes i (snd (snd p))) (pending s))"
    using assms(2) by (intro filter_conj_less[where x = "(n, q, k)"]) simp_all
  then show ?thesis
    by (simp add: pending_finish_def unpend_def)
qed

lemma inv_count_init: "inv_count i init"
  by (simp add: inv_count_def init_def started_def finished_def events_def job_ids_def
      all_children_def open_children_def updates_def pending_finish_def)

lemmas obs = started_def finished_def events_def job_ids_def
      all_children_def open_children_def updates_def pending_finish_def

lemma inv_count_step:
  assumes "inv_pending s" "inv_count i s"
  shows "inv_count i (step e s)"
proof (cases e)
  case (ExecuteCommand sk key uuid sp)
  then show ?thesis using assms(2)
    by (auto simp: inv_count_def execute_command_def prims obs split: lookup.splits)
next
  case (Resolved n r)
  from assms(1) have "inv_count i (settle n r s)"
  proof (cases rule: settle_elim[where n=n and r=r])
    case ignored
    then show ?thesis using assms(2) by simp
  next
    case (insert_fail sk i' c sp m)
    have "pending_finish i (unpend n s) \<le> pending_finish i s"
      by (rule pending_finish_unpend_le)
    then show ?thesis using assms(2) insert_fail(2)
      by (auto simp: inv_count_def prims obs)
  next
    case (spawned sk i' c now)
    have "pending_finish i (unpend n s) \<le> pending_finish i s"
      by (rule pending_finish_unpend_le)
    then show ?thesis using assms(2) spawned(3,4)
      by (auto simp: inv_count_def prims obs)
  next
    case (threw sk i' c m now)
    have "pending_finish i (unpend n s) \<le> pending_finish i s"
      by (rule pending_finish_unpend_le)
    then show ?thesis using assms(2) threw(3,4)
      by (auto simp: inv_count_def prims obs)
  next
    case (log_fail sk i' sm d m)
    have "pending_finish i (unpend n s) \<le> pending_finish i s"
      by (rule pending_finish_unpend_le)
    then show ?thesis using assms(2) log_fail(2)
      by (auto simp: inv_count_def prims obs)
  next
    case (log_ok sk i' sm d now)
    have "pending_finish i (unpend n s) \<le> pending_finish i s"
      by (rule pending_finish_unpend_le)
    then show ?thesis using assms(2) log_ok(4)
      by (auto simp: inv_count_def prims obs)
  next
    case (fin_fail sk i' code m)
    have "pending_finish i (unpend n s) \<le> pending_finish i s"
      by (rule pending_finish_unpend_le)
    then show ?thesis using assms(2) fin_fail(3)
      by (auto simp: inv_count_def prims obs)
  next
    case (fin_ok sk i' code now)
    have le: "pending_finish i (unpend n s) \<le> pending_finish i s"
      by (rule pending_finish_unpend_le)
    have less: "i' = i \<Longrightarrow> pending_finish i (unpend n s) < pending_finish i s"
      using pending_finish_unpend_less[OF fin_ok(1), of i] by simp
    show ?thesis
    proof (cases "i' = i")
      case True
      with less have "pending_finish i (unpend n s) < pending_finish i s" by simp
      then show ?thesis using assms(2) fin_ok(3) True
        by (auto simp: inv_count_def prims obs image_image j_id_update_row)
    next
      case False
      then show ?thesis using assms(2) fin_ok(3) le
        by (auto simp: inv_count_def prims obs image_image j_id_update_row)
    qed
  qed
  then show ?thesis using Resolved by simp
next
  case (Data pid sm d)
  then show ?thesis using assms(2)
    by (auto simp: inv_count_def prims obs)
next
  case (Close pid code)
  show ?thesis
  proof (cases "pid < length (children s) \<and> p_open (children s ! pid)")
    case False
    then show ?thesis using assms(2) Close by auto
  next
    case True
    let ?y = "(children s ! pid)\<lparr>p_open := False\<rparr>"
    have a: "length (filter (\<lambda>c. p_job c = i) ((children s)[pid := ?y])) =
             length (filter (\<lambda>c. p_job c = i) (children s))"
      using filter_update_len[of pid "children s" "\<lambda>c. p_job c = i" ?y] True by simp
    have b: "length (filter (\<lambda>c. p_job c = i \<and> p_open c) ((children s)[pid := ?y])) +
             (if p_job (children s ! pid) = i then 1 else 0) =
             length (filter (\<lambda>c. p_job c = i \<and> p_open c) (children s))"
      using filter_update_len[of pid "children s" "\<lambda>c. p_job c = i \<and> p_open c" ?y] True by simp
    show ?thesis using assms(2) Close True a b
      by (auto simp: inv_count_def prims obs split: if_splits)
  qed
qed

lemma terminal_in_Nil: "\<not> terminal_in i []"
  by (simp add: terminal_in_def)

lemma terminal_in_append:
  "terminal_in i (js @ [r]) = (terminal_in i js \<or> j_id r = i \<and> j_status r \<noteq> Running)"
  by (auto simp: terminal_in_def)

lemma terminal_in_update_other:
  "i' \<noteq> i \<Longrightarrow> terminal_in i (map (update_row st now i') js) = terminal_in i js"
  by (auto simp: terminal_in_def update_row_def)

lemma terminal_in_update_same:
  assumes "i \<in> j_id ` set js" "st \<noteq> Running"
  shows "terminal_in i (map (update_row st now i) js)"
proof -
  from assms(1) obtain x where x: "x \<in> set js" "j_id x = i"
    by auto
  then have "update_row st now i x \<in> set (map (update_row st now i) js)"
    by simp
  moreover have "j_id (update_row st now i x) = i \<and> j_status (update_row st now i x) \<noteq> Running"
    using x assms(2) by (simp add: update_row_def)
  ultimately show ?thesis
    unfolding terminal_in_def by blast
qed

lemma pending_finish_pos:
  "map_of (pending s) n = Some (q, k) \<Longrightarrow> finishes i k \<Longrightarrow> 0 < pending_finish i s"
  using pending_finish_unpend_less[of s n q k i] by simp

lemma pending_job:
  "inv_ref s \<Longrightarrow> map_of (pending s) n = Some (q, k) \<Longrightarrow> cont_job k = Some i \<Longrightarrow> i \<in> job_ids s"
  by (auto simp: inv_ref_def dest!: map_of_SomeD)

lemma inv_fin_init: "inv_fin i init"
  by (simp add: inv_fin_def init_def finished_def events_def terminal_def terminal_in_Nil)

lemma inv_fin_step:
  assumes "inv_pending s" "inv_ref s" "inv_count i s" "inv_fin i s"
  shows "inv_fin i (step e s)"
proof (cases e)
  case (ExecuteCommand sk key uuid sp)
  then show ?thesis using assms(4)
    by (auto simp: inv_fin_def execute_command_def prims finished_def events_def terminal_def split: lookup.splits)
next
  case (Resolved n r)
  from assms(1) have "inv_fin i (settle n r s)"
  proof (cases rule: settle_elim[where n=n and r=r])
    case ignored
    then show ?thesis using assms(4) by simp
  next
    case (insert_fail sk i' c sp m)
    then show ?thesis using assms(4)
      by (auto simp: inv_fin_def prims finished_def events_def terminal_def terminal_in_append)
  next
    case (spawned sk i' c now)
    then show ?thesis using assms(4)
      by (auto simp: inv_fin_def prims finished_def events_def terminal_def terminal_in_append)
  next
    case (threw sk i' c m now)
    then show ?thesis using assms(4)
      by (auto simp: inv_fin_def prims finished_def events_def terminal_def terminal_in_append)
  next
    case (log_fail sk i' sm d m)
    then show ?thesis using assms(4)
      by (auto simp: inv_fin_def prims finished_def events_def terminal_def terminal_in_append)
  next
    case (log_ok sk i' sm d now)
    then show ?thesis using assms(4)
      by (auto simp: inv_fin_def prims finished_def events_def terminal_def terminal_in_append)
  next
    case (fin_fail sk i' code m)
    then show ?thesis using assms(4)
      by (auto simp: inv_fin_def prims finished_def events_def terminal_def terminal_in_append)
  next
    case (fin_ok sk i' code now)
    show ?thesis
    proof (cases "i' = i")
      case True
      have "0 < pending_finish i s"
        using pending_finish_pos[OF fin_ok(1), of i] True by simp
      then have 0: "finished i s = 0"
        using assms(3) by (auto simp: inv_count_def split: if_splits)
      have "i \<in> job_ids s"
        using pending_job[OF assms(2) fin_ok(1), of i] True by simp
      then have "terminal_in i (map (update_row (final_status code) now i) (jobs s))"
        by (intro terminal_in_update_same) (simp_all add: job_ids_def final_status_terminal)
      then show ?thesis using 0 True fin_ok(3)
        by (simp add: inv_fin_def prims finished_def events_def terminal_def)
    next
      case False
      then show ?thesis using assms(4) fin_ok(3)
        by (simp add: inv_fin_def prims finished_def events_def terminal_def
            terminal_in_update_other)
    qed
  qed
  then show ?thesis using Resolved by simp
next
  case (Data pid sm d)
  then show ?thesis using assms(4)
    by (auto simp: inv_fin_def prims finished_def events_def terminal_def terminal_in_append)
next
  case (Close pid code)
  then show ?thesis using assms(4)
    by (auto simp: inv_fin_def prims finished_def events_def terminal_def terminal_in_append)
qed

lemma started_job_events:
  assumes "0 < started i s"
  shows "job_events i s \<noteq> []"
proof -
  from assms have "filter (is_started i) (events s) \<noteq> []"
    by (auto simp: started_def)
  then obtain e where e: "e \<in> set (events s)" "is_started i e"
    by (metis filter_False)
  have "job_of e = Some i" using e(2) by (cases e) auto
  with e show ?thesis
    by (auto simp: job_events_def filter_empty_conv)
qed

lemma known_job_events:
  "inv_count i s \<Longrightarrow> i \<in> job_ids s \<Longrightarrow> job_events i s \<noteq> []"
  by (rule started_job_events) (simp add: inv_count_def)

lemma inv_first_init: "inv_first i init"
  by (simp add: inv_first_def job_events_def events_def init_def)

lemma inv_first_emit:
  assumes "inv_first i s" "events s' = events s @ [e]"
    "job_of e = Some i \<Longrightarrow> job_events i s \<noteq> [] \<or> is_started i e"
  shows "inv_first i s'"
  using assms by (auto simp: inv_first_def job_events_def hd_append)

lemma inv_first_same:
  "inv_first i s \<Longrightarrow> events s' = events s \<Longrightarrow> inv_first i s'"
  by (simp add: inv_first_def job_events_def)

lemma inv_first_step:
  assumes "inv_pending s" "inv_ref s" "inv_count i s" "inv_first i s"
  shows "inv_first i (step e s)"
proof (cases e)
  case (ExecuteCommand sk key uuid sp)
  show ?thesis
  proof (cases "COMMANDS_get key")
    case Undefined
    show ?thesis
      by (rule inv_first_emit[OF assms(4), where e = "Error (''Unknown command: '' @ key)"])
         (simp_all add: ExecuteCommand Undefined execute_command_def prims events_def)
  next
    case (Own c)
    show ?thesis
      by (rule inv_first_same[OF assms(4)])
         (simp add: ExecuteCommand Own execute_command_def prims events_def)
  next
    case Inherited
    show ?thesis
      by (rule inv_first_same[OF assms(4)])
         (simp add: ExecuteCommand Inherited execute_command_def prims events_def)
  qed
next
  case (Resolved n r)
  from assms(1) have "inv_first i (settle n r s)"
  proof (cases rule: settle_elim[where n=n and r=r])
    case ignored
    then show ?thesis using assms(4) by simp
  next
    case (insert_fail sk i' c sp m)
    show ?thesis
      by (rule inv_first_emit[OF assms(4), where e = "Error m"])
         (simp_all add: insert_fail(2) prims events_def)
  next
    case (spawned sk i' c now)
    show ?thesis
      by (rule inv_first_emit[OF assms(4), where e = "JobStarted i' (cmdStr c)"])
         (simp_all add: spawned(4) prims events_def)
  next
    case (threw sk i' c m now)
    have "inv_first i (emit sk (JobStarted i' (cmdStr c)) s)"
      by (rule inv_first_emit[OF assms(4), where e = "JobStarted i' (cmdStr c)"])
         (simp_all add: prims events_def)
    then show ?thesis
      by (rule inv_first_emit[where e = "Error m"])
         (simp_all add: threw(4) prims events_def)
  next
    case (log_fail sk i' sm d m)
    show ?thesis
      by (rule inv_first_same[OF assms(4)]) (simp add: log_fail(2) prims events_def)
  next
    case (log_ok sk i' sm d now)
    show ?thesis
      by (rule inv_first_emit[OF assms(4), where e = "JobLog i' sm d"])
         (use log_ok(3) known_job_events[OF assms(3)] in
           \<open>simp_all add: log_ok(4) prims events_def\<close>)
  next
    case (fin_fail sk i' code m)
    show ?thesis
      by (rule inv_first_same[OF assms(4)]) (simp add: fin_fail(3) prims events_def)
  next
    case (fin_ok sk i' code now)
    have "i' \<in> job_ids s"
      using pending_job[OF assms(2) fin_ok(1), of i'] by simp
    then show ?thesis
      by (intro inv_first_emit[OF assms(4), where e = "JobFinished i' (final_status code) code"])
         (use known_job_events[OF assms(3)] in
           \<open>simp_all add: fin_ok(3) prims events_def\<close>)
  qed
  then show ?thesis using Resolved by simp
next
  case (Data pid sm d)
  show ?thesis
    by (rule inv_first_same[OF assms(4)]) (simp add: Data prims events_def)
next
  case (Close pid code)
  show ?thesis
    by (rule inv_first_same[OF assms(4)]) (simp add: Close prims events_def)
qed

lemma open_child_pos:
  assumes "pid < length (children s)" "p_open (children s ! pid)"
  shows "0 < open_children (p_job (children s ! pid)) s"
proof -
  have "children s ! pid \<in> set (children s)" using assms(1) by simp
  then have "filter (\<lambda>c. p_job c = p_job (children s ! pid) \<and> p_open c) (children s) \<noteq> []"
    using assms(2) by (auto simp: filter_empty_conv)
  then show ?thesis by (simp add: open_children_def)
qed

lemma no_updates:
  "updates i s = 0 \<Longrightarrow> q \<in> set (issued s) \<Longrightarrow> \<not> is_update i q"
  by (auto simp: updates_def filter_empty_conv)

lemma inv_order_init: "inv_order i init"
  by (simp add: inv_order_def init_def)

lemma inv_order_step:
  assumes "inv_pending s" "inv_count i s" "inv_order i s"
  shows "inv_order i (step e s)"
proof (cases e)
  case (ExecuteCommand sk key uuid sp)
  then show ?thesis using assms(3)
    by (auto simp: inv_order_def execute_command_def prims sorted_wrt_append split: lookup.splits)
next
  case (Resolved n r)
  from assms(1) have "issued (settle n r s) = issued s"
    by (cases rule: settle_elim[where n=n and r=r]) (simp_all add: prims)
  then show ?thesis using assms(3) Resolved by (simp add: inv_order_def)
next
  case (Data pid sm d)
  show ?thesis
  proof (cases "pid < length (children s) \<and> p_open (children s ! pid)")
    case False
    then show ?thesis using assms(3) Data by auto
  next
    case True
    let ?j = "p_job (children s ! pid)"
    have "?j = i \<Longrightarrow> updates i s = 0"
      using open_child_pos[of pid s] True assms(2)
      by (auto simp: inv_count_def split: if_splits)
    then have "?j = i \<Longrightarrow> \<forall>q\<in>set (issued s). \<not> is_update i q"
      using no_updates by blast
    then show ?thesis using assms(3) Data True
      by (auto simp: inv_order_def prims sorted_wrt_append)
  qed
next
  case (Close pid code)
  then show ?thesis using assms(3)
    by (auto simp: inv_order_def prims sorted_wrt_append)
qed

lemma inv_init: "inv init"
  by (simp add: inv_def inv_pending_init inv_ref_init inv_rows_init inv_count_init
      inv_fin_init inv_first_init inv_order_init)

lemma inv_step: "inv s \<Longrightarrow> inv (step e s)"
  by (simp add: inv_def inv_pending_step inv_ref_step inv_rows_step inv_count_step
      inv_fin_step inv_first_step inv_order_step)

lemma inv_run: "inv s \<Longrightarrow> inv (run evs s)"
  unfolding run_def by (induction evs arbitrary: s) (simp_all add: inv_step)

lemma inv_reachable: "inv (run evs init)"
  by (rule inv_run[OF inv_init])

lemma running_in_append:
  "running_in i (js @ [r]) =
    (running_in i js \<and> (j_id r = i \<longrightarrow> j_status r = Running \<and> j_finished_at r = None))"
  by (auto simp: running_in_def)

lemma running_in_update_other:
  "i' \<noteq> i \<Longrightarrow> running_in i (map (update_row st now i') js) = running_in i js"
  by (auto simp: running_in_def update_row_def)

lemmas stuck_obs = stuck_def row_running_def job_ids_def open_children_def
  pending_finish_def updates_def

lemma stuck_step:
  assumes "inv_pending s" "stuck i s"
  shows "stuck i (step e s) \<and> updates i (step e s) = updates i s"
proof (cases e)
  case (ExecuteCommand sk key uuid sp)
  then show ?thesis using assms(2)
    by (auto simp: execute_command_def prims stuck_obs split: lookup.splits)
next
  case (Resolved n r)
  have le: "pending_finish i (unpend n s) = 0"
    using pending_finish_unpend_le[of i n s] assms(2) by (simp add: stuck_def)
  then have le': "filter (\<lambda>x. fst x \<noteq> n \<and> finishes i (snd (snd x))) (pending s) = []"
    by (simp add: pending_finish_def unpend_def)
  from assms(1) have "stuck i (settle n r s) \<and> updates i (settle n r s) = updates i s"
  proof (cases rule: settle_elim[where n=n and r=r])
    case ignored
    then show ?thesis using assms(2) by simp
  next
    case (insert_fail sk i' c sp m)
    then show ?thesis using assms(2) le'
      by (simp add: prims stuck_obs running_in_append)
  next
    case (spawned sk i' c now)
    then have "i' \<noteq> i" using assms(2) by (auto simp: stuck_def)
    then show ?thesis using assms(2) le' spawned(4)
      by (simp add: prims stuck_obs running_in_append)
  next
    case (threw sk i' c m now)
    then have "i' \<noteq> i" using assms(2) by (auto simp: stuck_def)
    then show ?thesis using assms(2) le' threw(4)
      by (simp add: prims stuck_obs running_in_append)
  next
    case (log_fail sk i' sm d m)
    then show ?thesis using assms(2) le'
      by (simp add: prims stuck_obs running_in_append)
  next
    case (log_ok sk i' sm d now)
    then show ?thesis using assms(2) le'
      by (simp add: prims stuck_obs running_in_append)
  next
    case (fin_fail sk i' code m)
    then show ?thesis using assms(2) le'
      by (simp add: prims stuck_obs running_in_append)
  next
    case (fin_ok sk i' code now)
    have "i' \<noteq> i"
      using pending_finish_pos[OF fin_ok(1), of i'] assms(2) by (auto simp: stuck_def)
    then show ?thesis using assms(2) le' fin_ok(3)
      by (simp add: prims stuck_obs image_image j_id_update_row running_in_update_other)
  qed
  then show ?thesis using Resolved by simp
next
  case (Data pid sm d)
  then show ?thesis using assms(2)
    by (auto simp: prims stuck_obs)
next
  case (Close pid code)
  show ?thesis
  proof (cases "pid < length (children s) \<and> p_open (children s ! pid)")
    case False
    then show ?thesis using assms(2) Close by auto
  next
    case True
    let ?y = "(children s ! pid)\<lparr>p_open := False\<rparr>"
    have ne: "p_job (children s ! pid) \<noteq> i"
      using open_child_pos[of pid s] True assms(2) by (auto simp: stuck_def)
    have "length (filter (\<lambda>c. p_job c = i \<and> p_open c) ((children s)[pid := ?y])) =
          length (filter (\<lambda>c. p_job c = i \<and> p_open c) (children s))"
      using filter_update_len[of pid "children s" "\<lambda>c. p_job c = i \<and> p_open c" ?y] True ne
      by simp
    then show ?thesis using assms(2) Close True ne
      by (simp add: prims stuck_obs running_in_append)
  qed
qed

lemma stuck_run:
  "inv_pending s \<Longrightarrow> stuck i s \<Longrightarrow>
   stuck i (run evs s) \<and> updates i (run evs s) = updates i s"
proof (induction evs arbitrary: s)
  case Nil
  then show ?case by (simp add: run_def)
next
  case (Cons e evs)
  have 1: "stuck i (step e s)" "updates i (step e s) = updates i s"
    using stuck_step[OF Cons.prems] by simp_all
  have 2: "inv_pending (step e s)"
    using Cons.prems(1) by (rule inv_pending_step)
  from Cons.IH[OF 2 1(1)] 1(2) show ?case
    by (simp add: run_def)
qed

lemma pending_throw: "pending (throw k m s) = pending s"
  by (cases k) (simp_all add: prims)

lemma pending_resume: "pending (resume k s) = pending s"
  by (cases k) (auto simp: prims Let_def split: spawn_result.splits)

lemma pending_db_exec: "db_exec q now s = Inr s' \<Longrightarrow> pending s' = pending s"
  by (cases q) (auto split: if_splits)

lemma pending_settle:
  "pending (settle n r s) =
    (if map_of (pending s) n = None then pending s
     else filter (\<lambda>p. fst p \<noteq> n) (pending s))"
  by (auto simp: settle_def unpend_def Let_def pending_throw pending_resume
      dest: pending_db_exec split: option.splits db_result.splits sum.splits)

lemma pending_persists_step:
  assumes "map_of (pending s) n = Some x" "\<forall>r. e \<noteq> Resolved n r"
  shows "map_of (pending (step e s)) n = Some x"
proof (cases e)
  case (ExecuteCommand sk key uuid sp)
  then show ?thesis using assms(1)
    by (auto simp: execute_command_def prims split: lookup.splits)
next
  case (Resolved n' r)
  then have ne: "n' \<noteq> n" using assms(2) by auto
  show ?thesis using assms(1) Resolved
    by (simp add: pending_settle map_of_unpend_other[OF ne])
next
  case (Data pid sm d)
  then show ?thesis using assms(1) by (auto simp: prims)
next
  case (Close pid code)
  then show ?thesis using assms(1) by (auto simp: prims)
qed

lemma pending_persists:
  "map_of (pending s) n = Some x \<Longrightarrow> \<forall>r. Resolved n r \<notin> set evs \<Longrightarrow>
   map_of (pending (run evs s)) n = Some x"
proof (induction evs arbitrary: s)
  case Nil
  then show ?case by (simp add: run_def)
next
  case (Cons e evs)
  have "map_of (pending (step e s)) n = Some x"
    using Cons.prems by (intro pending_persists_step) auto
  from Cons.IH[OF this] Cons.prems(2) show ?case by (simp add: run_def)
qed

lemma fresh_pending:
  assumes "inv_pending s"
  shows "map_of (pending (db_query q k s)) (length (issued s)) = Some (q, k)"
proof -
  have "length (issued s) \<notin> fst ` set (pending s)"
    using assms by (auto simp: inv_pending_def)
  then have "map_of (pending s) (length (issued s)) = None"
    by (simp add: map_of_eq_None_iff)
  then show ?thesis by (simp add: db_query_def map_add_def)
qed


lemma settle_finish_err:
  "map_of (pending s) n = Some (UpdateJob st i, K_finished sk i st code) \<Longrightarrow>
   settle n (DbErr m) s = reject m (unpend n s)"
  by (simp add: settle_def)

lemma settle_log_ok:
  "map_of (pending s) n = Some (InsertLog i sm d, K_log sk i sm d) \<Longrightarrow> i \<in> job_ids s \<Longrightarrow>
   settle n (DbOk now) s =
     emit sk (JobLog i sm d) ((unpend n s)\<lparr>job_logs := job_logs s @
       [\<lparr>l_job_id = i, l_timestamp = now, l_stream = sm, l_data = d\<rparr>]\<rparr>)"
  by (simp add: settle_def unpend_def job_ids_def)

lemma settle_log_err:
  "map_of (pending s) n = Some (InsertLog i sm d, K_log sk i sm d) \<Longrightarrow>
   settle n (DbErr m) s = reject m (unpend n s)"
  by (simp add: settle_def)

lemma settle_insert_err:
  "map_of (pending s) n = Some (InsertJob i ty c st, K_spawn sk i c' sp) \<Longrightarrow>
   settle n (DbErr m) s = emit sk (Error m) (unpend n s)"
  by (simp add: settle_def)

lemma settle_insert_duplicate:
  "map_of (pending s) n = Some (InsertJob i ty c st, K_spawn sk i c' sp) \<Longrightarrow> i \<in> job_ids s \<Longrightarrow>
   settle n (DbOk now) s =
     emit sk (Error ''duplicate key value violates unique constraint jobs_pkey'') (unpend n s)"
  by (simp add: settle_def unpend_def job_ids_def)

lemma settle_insert_threw:
  "map_of (pending s) n = Some (InsertJob i ty c st, K_spawn sk i c' (SpawnThrew m)) \<Longrightarrow>
   i \<notin> job_ids s \<Longrightarrow>
   settle n (DbOk now) s =
     emit sk (Error m) (emit sk (JobStarted i (cmdStr c'))
       ((unpend n s)\<lparr>jobs := jobs s @
         [\<lparr>j_id = i, j_type = ty, j_command = c, j_status = st,
           j_started_at = now, j_finished_at = None\<rparr>]\<rparr>))"
  by (simp add: settle_def unpend_def job_ids_def)

lemma close_pending:
  assumes "inv_pending s" "pid < length (children s)" "p_open (children s ! pid)"
  shows "map_of (pending (step (Close pid code) s)) (length (issued s)) =
    Some (UpdateJob (final_status code) (p_job (children s ! pid)),
          K_finished (p_sock (children s ! pid)) (p_job (children s ! pid))
            (final_status code) code)"
proof -
  let ?s = "s\<lparr>children := (children s)[pid := (children s ! pid)\<lparr>p_open := False\<rparr>]\<rparr>"
  have "inv_pending ?s" using assms(1) by (simp add: inv_pending_def)
  from fresh_pending[OF this] show ?thesis using assms(2,3)
    by (simp add: on_close_def)
qed

lemma data_pending:
  assumes "inv_pending s" "pid < length (children s)" "p_open (children s ! pid)"
  shows "map_of (pending (step (Data pid sm d) s)) (length (issued s)) =
    Some (InsertLog (p_job (children s ! pid)) sm d,
          K_log (p_sock (children s ! pid)) (p_job (children s ! pid)) sm d)"
  using fresh_pending[OF assms(1)] assms(2,3) by (simp add: on_data_def)

lemma execute_pending:
  assumes "inv_pending s" "COMMANDS_get key = Own c"
  shows "map_of (pending (step (ExecuteCommand sk key uuid sp) s)) (length (issued s)) =
    Some (InsertJob uuid (c_type c) (cmdStr c) Running, K_spawn sk uuid c sp)"
  using fresh_pending[OF assms(1)] assms(2) by (simp add: execute_command_def)

lemma inv_parts:
  assumes "inv s"
  shows "inv_pending s" "inv_ref s" "inv_rows s" "inv_count i s" "inv_fin i s"
    "inv_first i s" "inv_order i s"
  using assms by (simp_all add: inv_def)

lemma not_terminal_running:
  assumes "inv_rows s" "\<not> terminal i s"
  shows "row_running i s"
  using assms by (auto simp: inv_rows_def terminal_def terminal_in_def row_running_def running_in_def)

lemma running_not_terminal: "row_running i s \<Longrightarrow> \<not> terminal i s"
  by (auto simp: terminal_def terminal_in_def row_running_def running_in_def)

text \<open>The definitions a concrete run is evaluated with.\<close>

lemmas exec_defs = run_def init_def execute_command_def COMMANDS_get_def COMMANDS_def
  Object_prototype_names_def cmdStr_def db_query_def emit_def reject_def unpend_def settle_def
  on_data_def on_close_def final_status_def job_ids_def update_row_def




lemma started_a_state:
  "run started_a init = \<lparr>jobs = [\<lparr>j_id = ''a'', j_type = Local,
       j_command = ''echo Simulating make status...done.'', j_status = Running,
       j_started_at = 1, j_finished_at = None\<rparr>],
     job_logs = [],
     emitted = [(0, JobStarted ''a'' ''echo Simulating make status...done.'')],
     issued = [InsertJob ''a'' Local ''echo Simulating make status...done.'' Running],
     pending = [],
     children = [\<lparr>p_sock = 0, p_job = ''a'', p_open = True\<rparr>],
     unhandled = []\<rparr>"
  by (simp add: started_a_def exec_defs)

text \<open>
  A key that reads as \<^verbatim>\<open>undefined\<close> gets the one \<^verbatim>\<open>error\<close> event of line 51 and nothing
  else: no query, no child, no other event.
\<close>

lemma unknown_key_one_error:
  "COMMANDS_get key = Undefined \<Longrightarrow>
   step (ExecuteCommand sk key uuid sp) s =
     s\<lparr>emitted := emitted s @ [(sk, Error (''Unknown command: '' @ key))]\<rparr>"
  by (simp add: execute_command_def emit_def)

lemma sorted_desc:
  "sorted_wrt (\<lambda>a b. j_started_at b \<le> j_started_at a) (order_by_started_at_desc js)"
  unfolding order_by_started_at_desc_def
  using sorted_sort_key[of j_started_at js]
  by (simp add: sorted_wrt_rev sorted_map)

lemma mset_desc: "mset (order_by_started_at_desc js) = mset js"
  unfolding order_by_started_at_desc_def by simp

lemma fifteen_rows:
  "get_api_jobs (Some 3) (DbOk 0) fifteen_jobs =
     Json (map (\<lambda>k. job_row (replicate (Suc k) CHR ''a'') k) [14, 13, 12, 11, 10, 9, 8, 7, 6, 5])"
  by (simp add: get_api_jobs_def fifteen_jobs_def order_by_started_at_desc_def job_row_def
      init_def)

lemma settle_insert_fails:
  assumes "map_of (pending s) n = Some (InsertJob i ty c st, K_spawn sk i c' sp)"
    and "r = DbErr m \<or>
      (\<exists>now. r = DbOk now) \<and> i \<in> job_ids s \<and>
      m = ''duplicate key value violates unique constraint jobs_pkey''"
  shows "settle n r s = emit sk (Error m) (unpend n s)"
  using assms settle_insert_err[OF assms(1)] settle_insert_duplicate[OF assms(1)]
  by auto

lemma execute_then_insert_fails:
  assumes inv0: "inv s0"
    and key: "COMMANDS_get key = Own c"
    and mid: "\<forall>r. Resolved (length (issued s0)) r \<notin> set mid"
    and s1: "s1 = run mid (step (ExecuteCommand sk key uuid sp) s0)"
    and r: "r = DbErr m \<or>
      (\<exists>now. r = DbOk now) \<and> uuid \<in> job_ids s1 \<and>
      m = ''duplicate key value violates unique constraint jobs_pkey''"
    and s2: "s2 = step (Resolved (length (issued s0)) r) s1"
  shows "emitted s2 = emitted s1 @ [(sk, Error m)]"
    and "children s2 = children s1" and "jobs s2 = jobs s1" and "job_logs s2 = job_logs s1"
    and "issued s2 = issued s1" and "unhandled s2 = unhandled s1"
    and "map_of (pending s2) (length (issued s0)) = None"
proof -
  have p0: "inv_pending s0" using inv0 by (rule inv_parts)
  have "map_of (pending (step (ExecuteCommand sk key uuid sp) s0)) (length (issued s0)) =
      Some (InsertJob uuid (c_type c) (cmdStr c) Running, K_spawn sk uuid c sp)"
    by (rule execute_pending[OF p0 key])
  then have pend: "map_of (pending s1) (length (issued s0)) =
      Some (InsertJob uuid (c_type c) (cmdStr c) Running, K_spawn sk uuid c sp)"
    unfolding s1 using mid by (rule pending_persists)
  have eq: "s2 = emit sk (Error m) (unpend (length (issued s0)) s1)"
    unfolding s2 step.simps by (rule settle_insert_fails[OF pend r])
  show "emitted s2 = emitted s1 @ [(sk, Error m)]"
    and "children s2 = children s1" and "jobs s2 = jobs s1" and "job_logs s2 = job_logs s1"
    and "issued s2 = issued s1" and "unhandled s2 = unhandled s1"
    by (simp_all add: eq emit_def unpend_def)
  show "map_of (pending s2) (length (issued s0)) = None"
    by (simp add: eq emit_def unpend_def map_of_unpend_same)
qed

lemma execute_valid_key:
  "COMMANDS_get key = Own c \<Longrightarrow>
   execute_command sk key uuid sp s =
     db_query (InsertJob uuid (c_type c) (cmdStr c) Running) (K_spawn sk uuid c sp) s"
  by (simp add: execute_command_def)

lemma vm_status_own:
  "COMMANDS_get ''vm-status'' =
     Own \<lparr>c_type = Local, c_cmd = ''echo'', c_args = [''Simulating make status...done.'']\<rparr>"
  by (simp add: COMMANDS_get_def COMMANDS_def)

lemma close_pending_run:
  assumes "inv_pending s" "pid < length (children s)" "p_open (children s ! pid)"
    and "\<forall>r. Resolved (length (issued s)) r \<notin> set mid"
  shows "map_of (pending (run mid (step (Close pid code) s))) (length (issued s)) =
    Some (UpdateJob (final_status code) (p_job (children s ! pid)),
          K_finished (p_sock (children s ! pid)) (p_job (children s ! pid))
            (final_status code) code)"
  using close_pending[OF assms(1-3)] assms(4) by (rule pending_persists)

lemma data_pending_run:
  assumes "inv_pending s" "pid < length (children s)" "p_open (children s ! pid)"
    and "\<forall>r. Resolved (length (issued s)) r \<notin> set mid"
  shows "map_of (pending (run mid (step (Data pid sm d) s))) (length (issued s)) =
    Some (InsertLog (p_job (children s ! pid)) sm d,
          K_log (p_sock (children s ! pid)) (p_job (children s ! pid)) sm d)"
  using data_pending[OF assms(1-3)] assms(4) by (rule pending_persists)

lemma execute_pending_run:
  assumes "inv_pending s" "COMMANDS_get key = Own c"
    and "\<forall>r. Resolved (length (issued s)) r \<notin> set mid"
  shows "map_of (pending (run mid (step (ExecuteCommand sk key uuid sp) s))) (length (issued s)) =
    Some (InsertJob uuid (c_type c) (cmdStr c) Running, K_spawn sk uuid c sp)"
  using execute_pending[OF assms(1,2)] assms(3) by (rule pending_persists)

text \<open>A job whose finalize write is pending has exactly one such write, no open child and no \<^verbatim>\<open>job-finished\<close>.\<close>

lemma pending_finish_counts:
  assumes "inv s" "map_of (pending s) n = Some (q, K_finished sk i st code)"
  shows "pending_finish i s = 1" "updates i s = 1" "open_children i s = 0" "finished i s = 0"
    "i \<in> job_ids s" "row_running i s"
proof -
  have pos: "0 < pending_finish i s"
    using pending_finish_pos[OF assms(2), of i] by simp
  have c: "inv_count i s" using assms(1) by (rule inv_parts)
  from pos c show 1: "pending_finish i s = 1" "updates i s = 1" "open_children i s = 0"
    and 0: "finished i s = 0"
    by (auto simp: inv_count_def split: if_splits)
  have "inv_ref s" using assms(1) by (rule inv_parts)
  then show "i \<in> job_ids s"
    using assms(2) by (rule pending_job) simp
  have "inv_fin i s" using assms(1) by (rule inv_parts)
  with 0 have "\<not> terminal i s" by (simp add: inv_fin_def split: if_splits)
  moreover have "inv_rows s" using assms(1) by (rule inv_parts)
  ultimately show "row_running i s" by (rule not_terminal_running[rotated])
qed

lemma stuck_forever:
  assumes "inv s" "stuck i s"
  shows "i \<in> job_ids (run later s)" "row_running i (run later s)"
    "updates i (run later s) = updates i s" "finished i (run later s) = 0"
proof -
  have p: "inv_pending s" using assms(1) by (rule inv_parts)
  from stuck_run[OF p assms(2), of later]
  have st: "stuck i (run later s)" and "updates i (run later s) = updates i s"
    by simp_all
  then show "updates i (run later s) = updates i s" by simp
  from st show "i \<in> job_ids (run later s)" "row_running i (run later s)"
    by (simp_all add: stuck_def)
  then have "\<not> terminal i (run later s)" by (simp add: running_not_terminal)
  moreover have "inv_fin i (run later s)"
    using inv_run[OF assms(1)] by (rule inv_parts)
  ultimately show "finished i (run later s) = 0" by (simp add: inv_fin_def)
qed

lemma finalize_rejected:
  assumes inv0: "inv s"
    and pend: "map_of (pending s) n = Some (UpdateJob st i, K_finished sk i st code)"
    and s1: "s1 = step (Resolved n (DbErr m)) s"
  shows "issued s1 = issued s" "emitted s1 = emitted s" "jobs s1 = jobs s"
    "unhandled s1 = unhandled s @ [m]" "inv s1" "stuck i s1" "updates i s1 = 1"
proof -
  have eq: "s1 = reject m (unpend n s)"
    unfolding s1 step.simps by (rule settle_finish_err[OF pend])
  show f: "issued s1 = issued s" "emitted s1 = emitted s" "jobs s1 = jobs s"
    "unhandled s1 = unhandled s @ [m]"
    by (simp_all add: eq reject_def unpend_def)
  show "inv s1" unfolding s1 by (rule inv_step[OF inv0])
  note c = pending_finish_counts[OF inv0 pend]
  have "pending_finish i (unpend n s) < pending_finish i s"
    using pend by (rule pending_finish_unpend_less) simp
  then have "pending_finish i s1 = 0"
    using c(1) by (simp add: eq reject_def pending_finish_def)
  moreover have "open_children i s1 = 0"
    using c(3) by (simp add: eq reject_def unpend_def open_children_def)
  moreover have "i \<in> job_ids s1" "row_running i s1"
    using c(5,6) f(3) by (simp_all add: job_ids_def row_running_def)
  ultimately show "stuck i s1" by (simp add: stuck_def)
  show "updates i s1 = 1" using c(2) f(1) by (simp add: updates_def)
qed

lemma unknown_job_counts:
  assumes "inv s" "i \<notin> job_ids s"
  shows "open_children i s = 0" "pending_finish i s = 0" "updates i s = 0" "row_running i s"
proof -
  have c: "inv_count i s" using assms(1) by (rule inv_parts)
  with assms(2) show "open_children i s = 0" "pending_finish i s = 0" "updates i s = 0"
    by (auto simp: inv_count_def)
  show "row_running i s"
    using assms(2) by (auto simp: row_running_def running_in_def job_ids_def)
qed

lemma spawn_threw:
  assumes inv0: "inv s"
    and pend: "map_of (pending s) n =
      Some (InsertJob i ty cs Running, K_spawn sk i c (SpawnThrew m))"
    and fresh: "i \<notin> job_ids s"
    and s1: "s1 = step (Resolved n (DbOk now)) s"
  shows "emitted s1 = emitted s @ [(sk, JobStarted i (cmdStr c)), (sk, Error m)]"
    "children s1 = children s" "issued s1 = issued s" "inv s1" "stuck i s1" "updates i s1 = 0"
proof -
  have eq: "s1 = emit sk (Error m) (emit sk (JobStarted i (cmdStr c))
       ((unpend n s)\<lparr>jobs := jobs s @
         [\<lparr>j_id = i, j_type = ty, j_command = cs, j_status = Running,
           j_started_at = now, j_finished_at = None\<rparr>]\<rparr>))"
    unfolding s1 step.simps by (rule settle_insert_threw[OF pend fresh])
  show f: "emitted s1 = emitted s @ [(sk, JobStarted i (cmdStr c)), (sk, Error m)]"
    "children s1 = children s" "issued s1 = issued s"
    by (simp_all add: eq emit_def unpend_def)
  show "inv s1" unfolding s1 by (rule inv_step[OF inv0])
  note c = unknown_job_counts[OF inv0 fresh]
  have "pending_finish i (unpend n s) \<le> pending_finish i s"
    by (rule pending_finish_unpend_le)
  then have "pending_finish i s1 = 0"
    using c(2) by (simp add: eq emit_def pending_finish_def)
  moreover have "open_children i s1 = 0"
    using c(1) by (simp add: eq emit_def unpend_def open_children_def)
  moreover have "i \<in> job_ids s1" "row_running i s1"
    using c(4) by (simp_all add: eq emit_def unpend_def job_ids_def row_running_def running_in_append)
  ultimately show "stuck i s1" by (simp add: stuck_def)
  show "updates i s1 = 0" using c(3) f(3) by (simp add: updates_def)
qed

lemma log_settled:
  assumes inv0: "inv s"
    and pend: "map_of (pending s) n = Some (InsertLog i sm d, K_log sk i sm d)"
  shows "emitted (step (Resolved n (DbOk now)) s) = emitted s @ [(sk, JobLog i sm d)]"
    "job_logs (step (Resolved n (DbOk now)) s) = job_logs s @
       [\<lparr>l_job_id = i, l_timestamp = now, l_stream = sm, l_data = d\<rparr>]"
    "issued (step (Resolved n (DbOk now)) s) = issued s"
    "map_of (pending (step (Resolved n (DbOk now)) s)) n = None"
    "emitted (step (Resolved n (DbErr m)) s) = emitted s"
    "job_logs (step (Resolved n (DbErr m)) s) = job_logs s"
    "issued (step (Resolved n (DbErr m)) s) = issued s"
    "unhandled (step (Resolved n (DbErr m)) s) = unhandled s @ [m]"
    "map_of (pending (step (Resolved n (DbErr m)) s)) n = None"
proof -
  have "inv_ref s" using inv0 by (rule inv_parts)
  then have known: "i \<in> job_ids s"
    using pend by (rule pending_job) simp
  have ok: "step (Resolved n (DbOk now)) s =
     emit sk (JobLog i sm d) ((unpend n s)\<lparr>job_logs := job_logs s @
       [\<lparr>l_job_id = i, l_timestamp = now, l_stream = sm, l_data = d\<rparr>]\<rparr>)"
    unfolding step.simps by (rule settle_log_ok[OF pend known])
  have err: "step (Resolved n (DbErr m)) s = reject m (unpend n s)"
    unfolding step.simps by (rule settle_log_err[OF pend])
  show "emitted (step (Resolved n (DbOk now)) s) = emitted s @ [(sk, JobLog i sm d)]"
    "job_logs (step (Resolved n (DbOk now)) s) = job_logs s @
       [\<lparr>l_job_id = i, l_timestamp = now, l_stream = sm, l_data = d\<rparr>]"
    "issued (step (Resolved n (DbOk now)) s) = issued s"
    "map_of (pending (step (Resolved n (DbOk now)) s)) n = None"
    unfolding ok by (simp_all add: emit_def unpend_def map_of_unpend_same)
  show "emitted (step (Resolved n (DbErr m)) s) = emitted s"
    "job_logs (step (Resolved n (DbErr m)) s) = job_logs s"
    "issued (step (Resolved n (DbErr m)) s) = issued s"
    "unhandled (step (Resolved n (DbErr m)) s) = unhandled s @ [m]"
    "map_of (pending (step (Resolved n (DbErr m)) s)) n = None"
    unfolding err by (simp_all add: reject_def unpend_def map_of_unpend_same)
qed

lemma counts_reachable:
  "updates i (run evs init) \<le> 1" "finished i (run evs init) \<le> 1"
  "started i (run evs init) \<le> 1" "finished i (run evs init) + open_children i (run evs init) \<le> 1"
proof -
  have "inv_count i (run evs init)" using inv_reachable by (rule inv_parts)
  then show "updates i (run evs init) \<le> 1" "finished i (run evs init) \<le> 1"
    "started i (run evs init) \<le> 1"
    "finished i (run evs init) + open_children i (run evs init) \<le> 1"
    by (auto simp: inv_count_def split: if_splits)
qed

lemma finished_a_state:
  "run (started_a @ [Close 0 (Some 0), Resolved 1 (DbOk 5)]) init =
     \<lparr>jobs = [\<lparr>j_id = ''a'', j_type = Local,
       j_command = ''echo Simulating make status...done.'', j_status = Success,
       j_started_at = 1, j_finished_at = Some 5\<rparr>],
     job_logs = [],
     emitted = [(0, JobStarted ''a'' ''echo Simulating make status...done.''),
                (0, JobFinished ''a'' Success (Some 0))],
     issued = [InsertJob ''a'' Local ''echo Simulating make status...done.'' Running,
               UpdateJob Success ''a''],
     pending = [],
     children = [\<lparr>p_sock = 0, p_job = ''a'', p_open = False\<rparr>],
     unhandled = []\<rparr>"
  unfolding run_append started_a_state by (simp add: exec_defs)

lemma race_state:
  "run (started_a @ [Data 0 Stdout ''x'', Close 0 (Some 0), Resolved 2 (DbOk 3),
      Resolved 1 (DbOk 4)]) init =
     \<lparr>jobs = [\<lparr>j_id = ''a'', j_type = Local,
       j_command = ''echo Simulating make status...done.'', j_status = Success,
       j_started_at = 1, j_finished_at = Some 3\<rparr>],
     job_logs = [\<lparr>l_job_id = ''a'', l_timestamp = 4, l_stream = Stdout, l_data = ''x''\<rparr>],
     emitted = [(0, JobStarted ''a'' ''echo Simulating make status...done.''),
                (0, JobFinished ''a'' Success (Some 0)),
                (0, JobLog ''a'' Stdout ''x'')],
     issued = [InsertJob ''a'' Local ''echo Simulating make status...done.'' Running,
               InsertLog ''a'' Stdout ''x'', UpdateJob Success ''a''],
     pending = [],
     children = [\<lparr>p_sock = 0, p_job = ''a'', p_open = False\<rparr>],
     unhandled = []\<rparr>"
  unfolding run_append started_a_state by (simp add: exec_defs)

lemma rows_update_other:
  "i' \<noteq> i \<Longrightarrow>
   filter (\<lambda>j. j_id j = i) (map (update_row st now i') js) = filter (\<lambda>j. j_id j = i) js"
  by (induction js) (auto simp: update_row_def)

lemmas quiet_obs = quiet_def job_rows_def job_ids_def open_children_def
  pending_finish_def updates_def

lemma quiet_step:
  assumes "inv_pending s" "quiet i s"
  shows "quiet i (step e s) \<and> updates i (step e s) = updates i s \<and>
    job_rows i (step e s) = job_rows i s"
proof (cases e)
  case (ExecuteCommand sk key uuid sp)
  then show ?thesis using assms(2)
    by (auto simp: execute_command_def prims quiet_obs split: lookup.splits)
next
  case (Resolved n r)
  have "pending_finish i (unpend n s) = 0"
    using pending_finish_unpend_le[of i n s] assms(2) by (simp add: quiet_def)
  then have le': "filter (\<lambda>x. fst x \<noteq> n \<and> finishes i (snd (snd x))) (pending s) = []"
    by (simp add: pending_finish_def unpend_def)
  from assms(1) have "quiet i (settle n r s) \<and> updates i (settle n r s) = updates i s \<and>
    job_rows i (settle n r s) = job_rows i s"
  proof (cases rule: settle_elim[where n=n and r=r])
    case ignored
    then show ?thesis using assms(2) by simp
  next
    case (insert_fail sk i' c sp m)
    then show ?thesis using assms(2) le'
      by (simp add: prims quiet_obs)
  next
    case (spawned sk i' c now)
    then have "i' \<noteq> i" using assms(2) by (auto simp: quiet_def)
    then show ?thesis using assms(2) le' spawned(4)
      by (simp add: prims quiet_obs)
  next
    case (threw sk i' c m now)
    then have "i' \<noteq> i" using assms(2) by (auto simp: quiet_def)
    then show ?thesis using assms(2) le' threw(4)
      by (simp add: prims quiet_obs)
  next
    case (log_fail sk i' sm d m)
    then show ?thesis using assms(2) le'
      by (simp add: prims quiet_obs)
  next
    case (log_ok sk i' sm d now)
    then show ?thesis using assms(2) le'
      by (simp add: prims quiet_obs)
  next
    case (fin_fail sk i' code m)
    then show ?thesis using assms(2) le'
      by (simp add: prims quiet_obs)
  next
    case (fin_ok sk i' code now)
    have "i' \<noteq> i"
      using pending_finish_pos[OF fin_ok(1), of i'] assms(2) by (auto simp: quiet_def)
    then show ?thesis using assms(2) le' fin_ok(3)
      by (simp add: prims quiet_obs image_image j_id_update_row rows_update_other)
  qed
  then show ?thesis using Resolved by simp
next
  case (Data pid sm d)
  then show ?thesis using assms(2)
    by (auto simp: prims quiet_obs)
next
  case (Close pid code)
  show ?thesis
  proof (cases "pid < length (children s) \<and> p_open (children s ! pid)")
    case False
    then show ?thesis using assms(2) Close by auto
  next
    case True
    let ?y = "(children s ! pid)\<lparr>p_open := False\<rparr>"
    have ne: "p_job (children s ! pid) \<noteq> i"
      using open_child_pos[of pid s] True assms(2) by (auto simp: quiet_def)
    have "length (filter (\<lambda>c. p_job c = i \<and> p_open c) ((children s)[pid := ?y])) =
          length (filter (\<lambda>c. p_job c = i \<and> p_open c) (children s))"
      using filter_update_len[of pid "children s" "\<lambda>c. p_job c = i \<and> p_open c" ?y] True ne
      by simp
    then show ?thesis using assms(2) Close True ne
      by (simp add: prims quiet_obs)
  qed
qed

lemma quiet_run:
  "inv_pending s \<Longrightarrow> quiet i s \<Longrightarrow>
   quiet i (run evs s) \<and> updates i (run evs s) = updates i s \<and>
   job_rows i (run evs s) = job_rows i s"
proof (induction evs arbitrary: s)
  case Nil
  then show ?case by (simp add: run_def)
next
  case (Cons e evs)
  have 1: "quiet i (step e s)" "updates i (step e s) = updates i s"
    "job_rows i (step e s) = job_rows i s"
    using quiet_step[OF Cons.prems] by simp_all
  have 2: "inv_pending (step e s)"
    using Cons.prems(1) by (rule inv_pending_step)
  from Cons.IH[OF 2 1(1)] 1(2,3) show ?case
    by (simp add: run_def)
qed

lemma terminal_quiet:
  assumes "inv s" "terminal i s"
  shows "quiet i s" "updates i s = 1" "finished i s = 1"
proof -
  have f: "inv_fin i s" and c: "inv_count i s"
    using assms(1) by (rule inv_parts)+
  from f assms(2) show 1: "finished i s = 1" by (simp add: inv_fin_def)
  with c show 2: "updates i s = 1"
    by (auto simp: inv_count_def split: if_splits)
  have "i \<in> job_ids s"
    using assms(2) by (auto simp: terminal_def terminal_in_def job_ids_def)
  moreover from 1 c have "open_children i s = 0" "pending_finish i s = 0"
    by (auto simp: inv_count_def split: if_splits)
  ultimately show "quiet i s" by (simp add: quiet_def)
qed

lemma finished_a_then_state:
  "run [Close 0 (Some 1), ExecuteCommand 3 ''vm-status'' ''a'' Spawned, Resolved 2 (DbOk 8)]
     (run (started_a @ [Close 0 (Some 0), Resolved 1 (DbOk 5)]) init) =
     \<lparr>jobs = [\<lparr>j_id = ''a'', j_type = Local,
       j_command = ''echo Simulating make status...done.'', j_status = Success,
       j_started_at = 1, j_finished_at = Some 5\<rparr>],
     job_logs = [],
     emitted = [(0, JobStarted ''a'' ''echo Simulating make status...done.''),
                (0, JobFinished ''a'' Success (Some 0)),
                (3, Error ''duplicate key value violates unique constraint jobs_pkey'')],
     issued = [InsertJob ''a'' Local ''echo Simulating make status...done.'' Running,
               UpdateJob Success ''a'',
               InsertJob ''a'' Local ''echo Simulating make status...done.'' Running],
     pending = [],
     children = [\<lparr>p_sock = 0, p_job = ''a'', p_open = False\<rparr>],
     unhandled = []\<rparr>"
  unfolding finished_a_state by (simp add: exec_defs)

lemma never_finalized_state:
  "run (started_a @ [Data 0 Stderr ''e'', Close 0 None,
      Resolved 2 (DbErr ''deadlock detected''), Resolved 1 (DbOk 3)]) init =
     \<lparr>jobs = [\<lparr>j_id = ''a'', j_type = Local,
       j_command = ''echo Simulating make status...done.'', j_status = Running,
       j_started_at = 1, j_finished_at = None\<rparr>],
     job_logs = [\<lparr>l_job_id = ''a'', l_timestamp = 3, l_stream = Stderr, l_data = ''e''\<rparr>],
     emitted = [(0, JobStarted ''a'' ''echo Simulating make status...done.''),
                (0, JobLog ''a'' Stderr ''e'')],
     issued = [InsertJob ''a'' Local ''echo Simulating make status...done.'' Running,
               InsertLog ''a'' Stderr ''e'', UpdateJob Failed ''a''],
     pending = [],
     children = [\<lparr>p_sock = 0, p_job = ''a'', p_open = False\<rparr>],
     unhandled = [''deadlock detected'']\<rparr>"
  unfolding run_append started_a_state by (simp add: exec_defs)


section \<open>Properties of the server\<close>

text \<open>
  C1.  In every state the server reaches, whatever the clients, the store and the
  children do, every row of \<^verbatim>\<open>jobs\<close> has \<^verbatim>\<open>finished_at\<close> non-null if and only if its
  \<^verbatim>\<open>status\<close> is \<^verbatim>\<open>success\<close> or \<^verbatim>\<open>failed\<close>: the insert of line 57 writes \<^verbatim>\<open>running\<close> and
  leaves \<^verbatim>\<open>finished_at\<close> null, and the update of line 72, the only other write to the
  table, sets a terminal status and \<^verbatim>\<open>finished_at\<close> together.
\<close>

theorem finished_at_iff_terminal:
  "\<forall>j\<in>set (jobs (run evs init)).
     (j_finished_at j \<noteq> None) = (j_status j = Success \<or> j_status j = Failed)"
proof
  fix j assume j: "j \<in> set (jobs (run evs init))"
  have "inv_rows (run evs init)"
    using inv_reachable by (rule inv_parts)
  with j have "(j_finished_at j \<noteq> None) = (j_status j \<noteq> Running)"
    by (simp add: inv_rows_def)
  then show "(j_finished_at j \<noteq> None) = (j_status j = Success \<or> j_status j = Failed)"
    by (cases "j_status j") simp_all
qed

text \<open>
  At a concrete run: job \<open>a\<close> is started, its child exits with code 0 and the update
  is acknowledged at time 5; job \<open>b\<close> is started and still runs.
\<close>

theorem finished_at_iff_terminal_witness:
  "map (\<lambda>j. (j_id j, j_status j, j_finished_at j))
     (jobs (run (started_a @ [Close 0 (Some 0), Resolved 1 (DbOk 5),
        ExecuteCommand 0 ''vm-logs'' ''b'' Spawned, Resolved 2 (DbOk 6)]) init)) =
     [(''a'', Success, Some 5), (''b'', Running, None)] \<and>
   list_all (\<lambda>j. (j_finished_at j \<noteq> None) = (j_status j = Success \<or> j_status j = Failed))
     (jobs (run (started_a @ [Close 0 (Some 0), Resolved 1 (DbOk 5),
        ExecuteCommand 0 ''vm-logs'' ''b'' Spawned, Resolved 2 (DbOk 6)]) init))"
proof -
  have "map (\<lambda>j. (j_id j, j_status j, j_finished_at j))
     (jobs (run (started_a @ [Close 0 (Some 0), Resolved 1 (DbOk 5),
        ExecuteCommand 0 ''vm-logs'' ''b'' Spawned, Resolved 2 (DbOk 6)]) init)) =
     [(''a'', Success, Some 5), (''b'', Running, None)]"
    by (simp add: started_a_def exec_defs)
  then show ?thesis
    using finished_at_iff_terminal[of "started_a @ [Close 0 (Some 0), Resolved 1 (DbOk 5),
        ExecuteCommand 0 ''vm-logs'' ''b'' Spawned, Resolved 2 (DbOk 6)]"]
    by (simp add: list_all_iff)
qed

text \<open>
  C2, as the code has it.  In every state the server reaches and for every job id:
  \<^verbatim>\<open>job-started\<close> has been emitted once if the job's row has been inserted and never
  otherwise; \<^verbatim>\<open>job-finished\<close> has been emitted once if the row has a terminal status,
  that is, if the update of line 72 has been acknowledged, and never otherwise;
  the first event of the job is its \<^verbatim>\<open>job-started\<close>; no append of a chunk of the job is
  issued after the job's update is issued; and once \<^verbatim>\<open>job-finished\<close> is out no child
  of the job is open, so no further chunk is handed to the store.  Nothing orders
  \<^verbatim>\<open>job-finished\<close> after the \<^verbatim>\<open>job-log\<close> events: a \<^verbatim>\<open>data\<close> listener emits only when
  its own append is acknowledged.
\<close>

theorem job_event_protocol:
  fixes evs :: "env_event list" and i :: string
  defines "s \<equiv> run evs init"
  shows "started i s = (if i \<in> job_ids s then 1 else 0) \<and>
    finished i s = (if terminal i s then 1 else 0) \<and>
    (job_events i s = [] \<or> is_started i (hd (job_events i s))) \<and>
    sorted_wrt (\<lambda>a b. \<not> (is_update i a \<and> is_append i b)) (issued s) \<and>
    finished i s + open_children i s \<le> 1"
proof -
  have "inv s" unfolding s_def by (rule inv_reachable)
  from inv_parts(4-7)[OF this, of i] counts_reachable(4)[of i evs]
  show ?thesis
    by (simp add: inv_count_def inv_fin_def inv_first_def inv_order_def s_def)
qed

text \<open>
  At a concrete run: one chunk, then \<^verbatim>\<open>close\<close>; the store acknowledges the update
  before the append.
\<close>

theorem job_event_protocol_witness:
  "started ''a'' (run (started_a @ [Data 0 Stdout ''x'', Close 0 (Some 0), Resolved 2 (DbOk 3),
      Resolved 1 (DbOk 4)]) init) = 1 \<and>
   finished ''a'' (run (started_a @ [Data 0 Stdout ''x'', Close 0 (Some 0), Resolved 2 (DbOk 3),
      Resolved 1 (DbOk 4)]) init) = 1 \<and>
   job_events ''a'' (run (started_a @ [Data 0 Stdout ''x'', Close 0 (Some 0), Resolved 2 (DbOk 3),
      Resolved 1 (DbOk 4)]) init) =
     [JobStarted ''a'' ''echo Simulating make status...done.'',
      JobFinished ''a'' Success (Some 0), JobLog ''a'' Stdout ''x''] \<and>
   issued (run (started_a @ [Data 0 Stdout ''x'', Close 0 (Some 0), Resolved 2 (DbOk 3),
      Resolved 1 (DbOk 4)]) init) =
     [InsertJob ''a'' Local ''echo Simulating make status...done.'' Running,
      InsertLog ''a'' Stdout ''x'', UpdateJob Success ''a'']"
  using job_event_protocol[of "''a''" "started_a @ [Data 0 Stdout ''x'', Close 0 (Some 0),
      Resolved 2 (DbOk 3), Resolved 1 (DbOk 4)]"]
  unfolding race_state
  by (simp add: started_def finished_def job_events_def events_def)

text \<open>
  C2 as stated fails twice.  When the store acknowledges the update of line 72
  before the append of the chunk that came before \<^verbatim>\<open>close\<close>, \<^verbatim>\<open>job-finished\<close> is emitted
  before that chunk's \<^verbatim>\<open>job-log\<close>: it is not the last event, and it goes out before
  the chunk has been handed to the socket.  When the insert of line 57 is
  rejected, a valid key produces neither \<^verbatim>\<open>job-started\<close> nor \<^verbatim>\<open>job-finished\<close>.
\<close>

theorem job_finished_is_not_last_counterexample:
  "map snd (emitted (run (started_a @ [Data 0 Stdout ''x'', Close 0 (Some 0),
      Resolved 2 (DbOk 3), Resolved 1 (DbOk 4)]) init)) =
     [JobStarted ''a'' ''echo Simulating make status...done.'',
      JobFinished ''a'' Success (Some 0), JobLog ''a'' Stdout ''x''] \<and>
   map snd (emitted (run [ExecuteCommand 0 ''vm-status'' ''a'' Spawned,
      Resolved 0 (DbErr ''connection refused'')] init)) = [Error ''connection refused'']"
  unfolding race_state by (simp add: exec_defs)

text \<open>
  C3, as the code has it.  A chunk that a child of a job writes is handed to the
  store once, at once, and nothing is emitted for it yet.  Whatever happens in
  between, when the append is acknowledged the row is written and exactly one
  \<^verbatim>\<open>job-log\<close> with the chunk goes to the job's socket; when the append is rejected
  the listener rejects: no \<^verbatim>\<open>job-log\<close> is emitted for the chunk, nothing is written
  and the append is not issued again.  Either way nothing of the chunk stays
  pending, so neither sink gets it twice.  The emit comes after the append and
  its outcome is never read, so the socket cannot undo or repeat the append.
\<close>

theorem chunk_is_appended_then_notified:
  fixes evs mid :: "env_event list" and pid now :: nat and sm :: stream and d m :: string
  defines "s0 \<equiv> run evs init"
  defines "i \<equiv> p_job (children s0 ! pid)"
  defines "sk \<equiv> p_sock (children s0 ! pid)"
  defines "n \<equiv> length (issued s0)"
  defines "s1 \<equiv> run mid (step (Data pid sm d) s0)"
  assumes child: "pid < length (children s0)" "p_open (children s0 ! pid)"
    and mid: "\<forall>r. Resolved (length (issued s0)) r \<notin> set mid"
  shows "issued (step (Data pid sm d) s0) = issued s0 @ [InsertLog i sm d] \<and>
    emitted (step (Data pid sm d) s0) = emitted s0 \<and>
    emitted (step (Resolved n (DbOk now)) s1) = emitted s1 @ [(sk, JobLog i sm d)] \<and>
    job_logs (step (Resolved n (DbOk now)) s1) = job_logs s1 @
       [\<lparr>l_job_id = i, l_timestamp = now, l_stream = sm, l_data = d\<rparr>] \<and>
    issued (step (Resolved n (DbOk now)) s1) = issued s1 \<and>
    map_of (pending (step (Resolved n (DbOk now)) s1)) n = None \<and>
    emitted (step (Resolved n (DbErr m)) s1) = emitted s1 \<and>
    job_logs (step (Resolved n (DbErr m)) s1) = job_logs s1 \<and>
    issued (step (Resolved n (DbErr m)) s1) = issued s1 \<and>
    unhandled (step (Resolved n (DbErr m)) s1) = unhandled s1 @ [m] \<and>
    map_of (pending (step (Resolved n (DbErr m)) s1)) n = None"
proof -
  have inv0: "inv s0" unfolding s0_def by (rule inv_reachable)
  then have p0: "inv_pending s0" by (rule inv_parts)
  have inv1: "inv s1" unfolding s1_def by (intro inv_run inv_step inv0)
  have pend: "map_of (pending s1) n = Some (InsertLog i sm d, K_log sk i sm d)"
    unfolding s1_def i_def sk_def n_def by (rule data_pending_run[OF p0 child mid])
  have "issued (step (Data pid sm d) s0) = issued s0 @ [InsertLog i sm d]"
    "emitted (step (Data pid sm d) s0) = emitted s0"
    using child by (simp_all add: on_data_def db_query_def i_def)
  then show ?thesis
    using log_settled[OF inv1 pend] by simp
qed

text \<open>At a concrete run: one chunk of job \<open>a\<close>, its append acknowledged at time 4, or rejected.\<close>

theorem chunk_is_appended_then_notified_witness:
  "map snd (emitted (step (Resolved 1 (DbOk 4))
      (run [] (step (Data 0 Stdout ''x'') (run started_a init))))) =
     [JobStarted ''a'' ''echo Simulating make status...done.'', JobLog ''a'' Stdout ''x''] \<and>
   job_logs (step (Resolved 1 (DbOk 4))
      (run [] (step (Data 0 Stdout ''x'') (run started_a init)))) =
     [\<lparr>l_job_id = ''a'', l_timestamp = 4, l_stream = Stdout, l_data = ''x''\<rparr>] \<and>
   map snd (emitted (step (Resolved 1 (DbErr ''timeout''))
      (run [] (step (Data 0 Stdout ''x'') (run started_a init))))) =
     [JobStarted ''a'' ''echo Simulating make status...done.''] \<and>
   job_logs (step (Resolved 1 (DbErr ''timeout''))
      (run [] (step (Data 0 Stdout ''x'') (run started_a init)))) = []"
proof -
  have c: "0 < length (children (run started_a init))"
    "p_open (children (run started_a init) ! 0)"
    "\<forall>r. Resolved (length (issued (run started_a init))) r \<notin> set []"
    by (simp_all add: started_a_state)
  show ?thesis
    using chunk_is_appended_then_notified[OF c, where sm = Stdout and d = "''x''"
        and now = 4 and m = "''timeout''"]
    unfolding started_a_state by (simp add: exec_defs)
qed

text \<open>
  C3 as stated fails: the append of a chunk is rejected, and the chunk's
  \<^verbatim>\<open>job-log\<close> is never emitted; the only event of the run is \<^verbatim>\<open>job-started\<close>.
\<close>

theorem append_failure_suppresses_job_log_counterexample:
  "map snd (emitted (run (started_a @ [Data 0 Stdout ''x'', Resolved 1 (DbErr ''timeout'')]) init)) =
     [JobStarted ''a'' ''echo Simulating make status...done.''] \<and>
   issued (run (started_a @ [Data 0 Stdout ''x'', Resolved 1 (DbErr ''timeout'')]) init) =
     [InsertJob ''a'' Local ''echo Simulating make status...done.'' Running,
      InsertLog ''a'' Stdout ''x''] \<and>
   pending (run (started_a @ [Data 0 Stdout ''x'', Resolved 1 (DbErr ''timeout'')]) init) = [] \<and>
   unhandled (run (started_a @ [Data 0 Stdout ''x'', Resolved 1 (DbErr ''timeout'')]) init) =
     [''timeout'']"
  unfolding run_append started_a_state by (simp add: exec_defs)




text \<open>
  C5, as the code has it.  In every state the server reaches, at most one update
  of line 72 has been issued for a job and at most one \<^verbatim>\<open>job-finished\<close> emitted.  A
  job that is not terminal has its row \<^verbatim>\<open>running\<close> with \<^verbatim>\<open>finished_at\<close> null.  A job
  that is terminal has had exactly one update, and whatever happens afterwards no
  further update is issued for it and its row, \<^verbatim>\<open>status\<close> and \<^verbatim>\<open>finished_at\<close> included,
  never changes: the server never finalizes a job twice.  So a row leaves
  \<^verbatim>\<open>running\<close> at most once.
\<close>

theorem status_leaves_running_at_most_once:
  fixes evs later :: "env_event list" and i :: string
  defines "s \<equiv> run evs init"
  shows "updates i s \<le> 1 \<and> finished i s \<le> 1 \<and>
    (\<not> terminal i s \<longrightarrow> row_running i s) \<and>
    (terminal i s \<longrightarrow>
       updates i s = 1 \<and> updates i (run later s) = 1 \<and>
       job_rows i (run later s) = job_rows i s)"
proof -
  have inv0: "inv s" unfolding s_def by (rule inv_reachable)
  have cnt: "updates i s \<le> 1" "finished i s \<le> 1"
    unfolding s_def by (rule counts_reachable)+
  have run: "\<not> terminal i s \<longrightarrow> row_running i s"
    using not_terminal_running[OF inv_parts(3)[OF inv0]] by blast
  have "terminal i s \<longrightarrow>
       updates i s = 1 \<and> updates i (run later s) = 1 \<and>
       job_rows i (run later s) = job_rows i s"
  proof
    assume t: "terminal i s"
    note q = terminal_quiet[OF inv0 t]
    from quiet_run[OF inv_parts(1)[OF inv0] q(1), of later] q(2)
    show "updates i s = 1 \<and> updates i (run later s) = 1 \<and>
       job_rows i (run later s) = job_rows i s"
      by simp
  qed
  with cnt run show ?thesis by blast
qed

text \<open>
  At a concrete run: job \<open>a\<close> is finalized at time 5; afterwards a \<^verbatim>\<open>close\<close> for its
  closed child is ignored, and a request that draws the same id is refused by the
  primary key.
\<close>

theorem status_leaves_running_at_most_once_witness:
  "terminal ''a'' (run (started_a @ [Close 0 (Some 0), Resolved 1 (DbOk 5)]) init) \<and>
   updates ''a'' (run (started_a @ [Close 0 (Some 0), Resolved 1 (DbOk 5)]) init) = 1 \<and>
   updates ''a''
     (run [Close 0 (Some 1), ExecuteCommand 3 ''vm-status'' ''a'' Spawned, Resolved 2 (DbOk 8)]
       (run (started_a @ [Close 0 (Some 0), Resolved 1 (DbOk 5)]) init)) = 1 \<and>
   job_rows ''a''
     (run [Close 0 (Some 1), ExecuteCommand 3 ''vm-status'' ''a'' Spawned, Resolved 2 (DbOk 8)]
       (run (started_a @ [Close 0 (Some 0), Resolved 1 (DbOk 5)]) init)) =
     [\<lparr>j_id = ''a'', j_type = Local,
       j_command = ''echo Simulating make status...done.'', j_status = Success,
       j_started_at = 1, j_finished_at = Some 5\<rparr>]"
proof -
  have t: "terminal ''a'' (run (started_a @ [Close 0 (Some 0), Resolved 1 (DbOk 5)]) init)"
    unfolding finished_a_state by (simp add: terminal_def terminal_in_def)
  have r: "job_rows ''a'' (run (started_a @ [Close 0 (Some 0), Resolved 1 (DbOk 5)]) init) =
     [\<lparr>j_id = ''a'', j_type = Local,
       j_command = ''echo Simulating make status...done.'', j_status = Success,
       j_started_at = 1, j_finished_at = Some 5\<rparr>]"
    unfolding finished_a_state by (simp add: job_rows_def)
  show ?thesis
    using status_leaves_running_at_most_once[where i = "''a''"
        and evs = "started_a @ [Close 0 (Some 0), Resolved 1 (DbOk 5)]"
        and later = "[Close 0 (Some 1), ExecuteCommand 3 ''vm-status'' ''a'' Spawned,
          Resolved 2 (DbOk 8)]"] t r
    by simp
qed

text \<open>
  C5 as stated fails: the child of job \<open>a\<close> closes, the store rejects the update of
  line 72 and acknowledges the append of the last chunk; the job's row is
  \<^verbatim>\<open>running\<close>, no child is open and nothing is pending.  Its status makes no
  transition at all.
\<close>

theorem status_never_leaves_running_counterexample:
  "map (\<lambda>j. (j_id j, j_status j, j_finished_at j))
     (jobs (run (started_a @ [Data 0 Stderr ''e'', Close 0 None,
        Resolved 2 (DbErr ''deadlock detected''), Resolved 1 (DbOk 3)]) init)) =
     [(''a'', Running, None)] \<and>
   pending (run (started_a @ [Data 0 Stderr ''e'', Close 0 None,
        Resolved 2 (DbErr ''deadlock detected''), Resolved 1 (DbOk 3)]) init) = [] \<and>
   map p_open (children (run (started_a @ [Data 0 Stderr ''e'', Close 0 None,
        Resolved 2 (DbErr ''deadlock detected''), Resolved 1 (DbOk 3)]) init)) = [False] \<and>
   stuck ''a'' (run (started_a @ [Data 0 Stderr ''e'', Close 0 None,
        Resolved 2 (DbErr ''deadlock detected''), Resolved 1 (DbOk 3)]) init)"
  unfolding never_finalized_state
  by (simp add: stuck_def job_ids_def open_children_def pending_finish_def row_running_def
      running_in_def)

text \<open>
  C6, as the code has it.  A client sends a valid key, the insert is acknowledged,
  and \<^verbatim>\<open>spawn\<close> throws with message \<open>m\<close>.  The listener emits \<^verbatim>\<open>job-started\<close> and then,
  from the \<^verbatim>\<open>catch\<close> of line 76, \<^verbatim>\<open>error\<close> with that message; it registers no child
  and issues no query.  From then on, whatever happens, the job's row exists with
  status \<^verbatim>\<open>running\<close> and \<^verbatim>\<open>finished_at\<close> null, no update is ever issued for it and no
  \<^verbatim>\<open>job-finished\<close> is ever emitted.
\<close>

theorem spawn_failure_leaves_job_running:
  fixes evs mid later :: "env_event list" and sk now :: nat and key uuid m :: string
  defines "s0 \<equiv> run evs init"
  defines "s1 \<equiv> run mid (step (ExecuteCommand sk key uuid (SpawnThrew m)) s0)"
  defines "s2 \<equiv> step (Resolved (length (issued s0)) (DbOk now)) s1"
  assumes key: "COMMANDS_get key = Own c"
    and mid: "\<forall>r. Resolved (length (issued s0)) r \<notin> set mid"
    and fresh: "uuid \<notin> job_ids s1"
  shows "emitted s2 = emitted s1 @ [(sk, JobStarted uuid (cmdStr c)), (sk, Error m)] \<and>
    children s2 = children s1 \<and> issued s2 = issued s1 \<and>
    uuid \<in> job_ids (run later s2) \<and> row_running uuid (run later s2) \<and>
    updates uuid (run later s2) = 0 \<and> finished uuid (run later s2) = 0"
proof -
  have inv0: "inv s0" unfolding s0_def by (rule inv_reachable)
  then have p0: "inv_pending s0" by (rule inv_parts)
  have inv1: "inv s1" unfolding s1_def by (intro inv_run inv_step inv0)
  have pend: "map_of (pending s1) (length (issued s0)) =
      Some (InsertJob uuid (c_type c) (cmdStr c) Running, K_spawn sk uuid c (SpawnThrew m))"
    unfolding s1_def by (rule execute_pending_run[OF p0 key mid])
  have s2: "s2 = step (Resolved (length (issued s0)) (DbOk now)) s1"
    by (simp add: s2_def)
  note t = spawn_threw[OF inv1 pend fresh s2]
  note f = stuck_forever[OF t(4) t(5), of later]
  show ?thesis
    using t(1-3) t(6) f by simp
qed

text \<open>
  At a concrete run: job \<open>a\<close> runs; \<^verbatim>\<open>spawn\<close> throws for job \<open>b\<close>; job \<open>a\<close> then closes and is
  finalized.
\<close>

theorem spawn_failure_leaves_job_running_witness:
  "map snd (emitted (step (Resolved 1 (DbOk 2))
      (run [] (step (ExecuteCommand 0 ''docker-ps'' ''b'' (SpawnThrew ''spawn EPERM''))
        (run started_a init))))) =
     [JobStarted ''a'' ''echo Simulating make status...done.'',
      JobStarted ''b'' ''echo Simulating ssh command...container up.'',
      Error ''spawn EPERM''] \<and>
   row_running ''b'' (run [Close 0 (Some 0), Resolved 2 (DbOk 3)] (step (Resolved 1 (DbOk 2))
      (run [] (step (ExecuteCommand 0 ''docker-ps'' ''b'' (SpawnThrew ''spawn EPERM''))
        (run started_a init))))) \<and>
   updates ''b'' (run [Close 0 (Some 0), Resolved 2 (DbOk 3)] (step (Resolved 1 (DbOk 2))
      (run [] (step (ExecuteCommand 0 ''docker-ps'' ''b'' (SpawnThrew ''spawn EPERM''))
        (run started_a init))))) = 0"
proof -
  have k: "COMMANDS_get ''docker-ps'' =
     Own \<lparr>c_type = Ssh, c_cmd = ''echo'', c_args = [''Simulating ssh command...container up.'']\<rparr>"
    by (simp add: COMMANDS_get_def COMMANDS_def)
  have m: "\<forall>r. Resolved (length (issued (run started_a init))) r \<notin> set []"
    by simp
  have f: "''b'' \<notin> job_ids (run [] (step (ExecuteCommand 0 ''docker-ps'' ''b''
      (SpawnThrew ''spawn EPERM'')) (run started_a init)))"
    unfolding started_a_state by (simp add: exec_defs)
  show ?thesis
    using spawn_failure_leaves_job_running[OF k m f, where now = 2
        and later = "[Close 0 (Some 0), Resolved 2 (DbOk 3)]"]
    unfolding started_a_state by (simp add: exec_defs)
qed

text \<open>
  C6 as stated fails: \<^verbatim>\<open>spawn\<close> throws, and the run ends with the job's row in
  \<^verbatim>\<open>running\<close>, nothing pending and no child.
\<close>

theorem spawn_failure_counterexample:
  "map (\<lambda>j. (j_id j, j_status j, j_finished_at j))
     (jobs (run [ExecuteCommand 0 ''vm-status'' ''a'' (SpawnThrew ''spawn EPERM''),
                 Resolved 0 (DbOk 1)] init)) = [(''a'', Running, None)] \<and>
   map snd (emitted (run [ExecuteCommand 0 ''vm-status'' ''a'' (SpawnThrew ''spawn EPERM''),
                 Resolved 0 (DbOk 1)] init)) =
     [JobStarted ''a'' ''echo Simulating make status...done.'', Error ''spawn EPERM''] \<and>
   pending (run [ExecuteCommand 0 ''vm-status'' ''a'' (SpawnThrew ''spawn EPERM''),
                 Resolved 0 (DbOk 1)] init) = [] \<and>
   children (run [ExecuteCommand 0 ''vm-status'' ''a'' (SpawnThrew ''spawn EPERM''),
                 Resolved 0 (DbOk 1)] init) = [] \<and>
   issued (run [ExecuteCommand 0 ''vm-status'' ''a'' (SpawnThrew ''spawn EPERM''),
                 Resolved 0 (DbOk 1)] init) =
     [InsertJob ''a'' Local ''echo Simulating make status...done.'' Running]"
  by (simp add: exec_defs)

text \<open>
  C7, at the key \<^verbatim>\<open>toString\<close>.  The key is not one of the three commands, yet
  \<^verbatim>\<open>COMMANDS['toString']\<close> is the function inherited from \<^verbatim>\<open>Object.prototype\<close>, so the
  guard of line 50 does not fire; line 55 then throws outside the \<^verbatim>\<open>try\<close>.  The
  listener rejects: no \<^verbatim>\<open>error\<close> event is emitted, and nothing else happens either.
\<close>

theorem inherited_key_emits_no_error:
  "map_of COMMANDS ''toString'' = None \<and>
   COMMANDS_get ''toString'' = Inherited \<and>
   step (ExecuteCommand sk ''toString'' uuid sp) s =
     s\<lparr>unhandled := unhandled s @ [''Cannot read properties of undefined (reading join)'']\<rparr> \<and>
   emitted (step (ExecuteCommand sk ''toString'' uuid sp) s) = emitted s"
  by (simp add: execute_command_def COMMANDS_get_def COMMANDS_def Object_prototype_names_def
      reject_def)

text \<open>
  C8, as the code has it.  The handler never reads the \<^verbatim>\<open>limit\<close> parameter.  Whatever it
  is, a successful history query returns the first ten rows, or all rows when there
  are fewer, of the table ordered by \<^verbatim>\<open>started_at\<close> descending: the rows returned,
  followed by the rows left out, are a rearrangement of the table in which no row
  is started later than a row before it.  Fifteen jobs give exactly ten rows.
\<close>

theorem history_returns_ten_newest:
  assumes "get_api_jobs limit (DbOk now) s = Json rows"
  shows "length rows = min 10 (length (jobs s)) \<and>
    (\<exists>rest. mset (rows @ rest) = mset (jobs s) \<and>
       sorted_wrt (\<lambda>a b. j_started_at b \<le> j_started_at a) (rows @ rest)) \<and>
    (length (jobs s) = 15 \<longrightarrow> length rows = 10)"
proof -
  let ?all = "order_by_started_at_desc (jobs s)"
  have rows: "rows = take 10 ?all"
    using assms by (simp add: get_api_jobs_def)
  have len: "length ?all = length (jobs s)"
    by (metis mset_desc size_mset)
  have 1: "length rows = min 10 (length (jobs s))"
    using rows len by simp
  have "rows @ drop 10 ?all = ?all"
    using rows by simp
  then have 2: "\<exists>rest. mset (rows @ rest) = mset (jobs s) \<and>
       sorted_wrt (\<lambda>a b. j_started_at b \<le> j_started_at a) (rows @ rest)"
    using mset_desc sorted_desc by metis
  from 1 2 show ?thesis by simp
qed

text \<open>At fifteen jobs and \<^verbatim>\<open>limit=3\<close>: the ten newest come back, newest first.\<close>

theorem history_returns_ten_newest_witness:
  "get_api_jobs (Some 3) (DbOk 0) fifteen_jobs =
     Json (map (\<lambda>k. job_row (replicate (Suc k) CHR ''a'') k) [14, 13, 12, 11, 10, 9, 8, 7, 6, 5]) \<and>
   length (jobs fifteen_jobs) = 15 \<and>
   length (map (\<lambda>k. job_row (replicate (Suc k) CHR ''a'') k)
     [14, 13, 12, 11, 10, 9, 8, 7, 6, 5 :: nat]) = 10"
  using history_returns_ten_newest[OF fifteen_rows] fifteen_rows
  by (simp add: fifteen_jobs_def)

text \<open>
  C8 as stated fails: \<^verbatim>\<open>GET /api/jobs?limit=3\<close> on fifteen jobs returns ten rows, not
  at most three.
\<close>

theorem history_ignores_limit_counterexample:
  "map j_started_at (json_rows (get_api_jobs (Some 3) (DbOk 0) fifteen_jobs)) =
     [14, 13, 12, 11, 10, 9, 8, 7, 6, 5] \<and>
   \<not> length (json_rows (get_api_jobs (Some 3) (DbOk 0) fifteen_jobs)) \<le> 3"
  by (simp add: fifteen_rows json_rows_def job_row_def)

text \<open>
  C9, as the code has it.  A child of a job closes and the \<^verbatim>\<open>close\<close> listener issues
  the update of line 72.  When the store rejects it with message \<open>m\<close>, the listener
  rejects with that message and does nothing else: no query is issued, nothing is
  emitted, no row changes.  From then on, whatever happens, that update stays the
  only one ever issued for the job, the job's row stays \<^verbatim>\<open>running\<close> with \<^verbatim>\<open>finished_at\<close>
  null, and no \<^verbatim>\<open>job-finished\<close> is emitted.
\<close>

theorem finalize_failure_is_not_retried:
  fixes evs mid later :: "env_event list" and pid :: nat and code :: "int option" and m :: string
  defines "s0 \<equiv> run evs init"
  defines "i \<equiv> p_job (children s0 ! pid)"
  defines "s1 \<equiv> run mid (step (Close pid code) s0)"
  defines "s2 \<equiv> step (Resolved (length (issued s0)) (DbErr m)) s1"
  assumes child: "pid < length (children s0)" "p_open (children s0 ! pid)"
    and mid: "\<forall>r. Resolved (length (issued s0)) r \<notin> set mid"
  shows "issued s2 = issued s1 \<and> emitted s2 = emitted s1 \<and> jobs s2 = jobs s1 \<and>
    unhandled s2 = unhandled s1 @ [m] \<and>
    updates i (run later s2) = 1 \<and> finished i (run later s2) = 0 \<and>
    i \<in> job_ids (run later s2) \<and> row_running i (run later s2)"
proof -
  have inv0: "inv s0" unfolding s0_def by (rule inv_reachable)
  then have p0: "inv_pending s0" by (rule inv_parts)
  have inv1: "inv s1" unfolding s1_def by (intro inv_run inv_step inv0)
  have pend: "map_of (pending s1) (length (issued s0)) =
      Some (UpdateJob (final_status code) i,
            K_finished (p_sock (children s0 ! pid)) i (final_status code) code)"
    unfolding s1_def i_def by (rule close_pending_run[OF p0 child mid])
  note r = finalize_rejected[OF inv1 pend, of s2 m]
  have s2: "s2 = step (Resolved (length (issued s0)) (DbErr m)) s1"
    by (simp add: s2_def)
  note f = stuck_forever[OF r(5)[OF s2] r(6)[OF s2], of later]
  show ?thesis
    using r(1-4)[OF s2] r(7)[OF s2] f by simp
qed

text \<open>
  At a concrete run: the update of job \<open>a\<close> is rejected; afterwards job \<open>b\<close> is started,
  closes and is finalized.
\<close>

theorem finalize_failure_is_not_retried_witness:
  "issued (run [ExecuteCommand 0 ''vm-logs'' ''b'' Spawned, Resolved 2 (DbOk 6),
        Close 1 (Some 0), Resolved 3 (DbOk 7)]
      (step (Resolved 1 (DbErr ''connection terminated''))
        (run [] (step (Close 0 (Some 0)) (run started_a init))))) =
     [InsertJob ''a'' Local ''echo Simulating make status...done.'' Running,
      UpdateJob Success ''a'',
      InsertJob ''b'' Local ''echo Simulating make logs...fake log output.'' Running,
      UpdateJob Success ''b''] \<and>
   updates ''a'' (run [ExecuteCommand 0 ''vm-logs'' ''b'' Spawned, Resolved 2 (DbOk 6),
        Close 1 (Some 0), Resolved 3 (DbOk 7)]
      (step (Resolved 1 (DbErr ''connection terminated''))
        (run [] (step (Close 0 (Some 0)) (run started_a init))))) = 1 \<and>
   row_running ''a'' (run [ExecuteCommand 0 ''vm-logs'' ''b'' Spawned, Resolved 2 (DbOk 6),
        Close 1 (Some 0), Resolved 3 (DbOk 7)]
      (step (Resolved 1 (DbErr ''connection terminated''))
        (run [] (step (Close 0 (Some 0)) (run started_a init)))))"
proof -
  have c: "0 < length (children (run started_a init))"
    "p_open (children (run started_a init) ! 0)"
    "\<forall>r. Resolved (length (issued (run started_a init))) r \<notin> set []"
    by (simp_all add: started_a_state)
  show ?thesis
    using finalize_failure_is_not_retried[OF c, where code = "Some 0"
        and m = "''connection terminated''" and later = "[ExecuteCommand 0 ''vm-logs'' ''b'' Spawned, Resolved 2 (DbOk 6),
          Close 1 (Some 0), Resolved 3 (DbOk 7)]"]
    unfolding started_a_state by (simp add: exec_defs)
qed

text \<open>
  C9 as stated fails: after one rejected update the run has issued that update
  once, nothing is pending, and the job's row is \<^verbatim>\<open>running\<close>.
\<close>

theorem finalize_failure_counterexample:
  "issued (run (started_a @ [Close 0 (Some 0), Resolved 1 (DbErr ''connection terminated'')]) init) =
     [InsertJob ''a'' Local ''echo Simulating make status...done.'' Running,
      UpdateJob Success ''a''] \<and>
   pending (run (started_a @ [Close 0 (Some 0), Resolved 1 (DbErr ''connection terminated'')]) init) = [] \<and>
   map (\<lambda>j. (j_id j, j_status j, j_finished_at j))
     (jobs (run (started_a @ [Close 0 (Some 0), Resolved 1 (DbErr ''connection terminated'')]) init)) =
     [(''a'', Running, None)] \<and>
   unhandled (run (started_a @ [Close 0 (Some 0), Resolved 1 (DbErr ''connection terminated'')]) init) =
     [''connection terminated'']"
  unfolding run_append started_a_state by (simp add: exec_defs)

text \<open>
  C10.  A client sends a valid key; the listener issues the insert and suspends
  without emitting or spawning anything.  Other events may come in between.  When
  the insert then fails, because the store rejects the query with message \<open>m\<close> or
  because the id is already a key of \<^verbatim>\<open>jobs\<close>, the \<^verbatim>\<open>catch\<close> of line 76 emits exactly
  one event, \<^verbatim>\<open>error\<close> with that message, on the requesting socket.  No child is
  spawned, no row is written, no further query is issued, and nothing of the
  request stays pending, so no \<^verbatim>\<open>job-started\<close>, \<^verbatim>\<open>job-log\<close> or \<^verbatim>\<open>job-finished\<close> can follow.
\<close>

theorem insert_failure_is_atomic:
  fixes evs mid :: "env_event list" and sk :: nat and key uuid m :: string
    and sp :: spawn_result and r :: db_result
  defines "s0 \<equiv> run evs init"
  defines "s1 \<equiv> run mid (step (ExecuteCommand sk key uuid sp) s0)"
  defines "s2 \<equiv> step (Resolved (length (issued s0)) r) s1"
  assumes key: "COMMANDS_get key = Own c"
    and mid: "\<forall>r. Resolved (length (issued s0)) r \<notin> set mid"
    and r: "r = DbErr m \<or>
      (\<exists>now. r = DbOk now) \<and> uuid \<in> job_ids s1 \<and>
      m = ''duplicate key value violates unique constraint jobs_pkey''"
  shows "emitted (step (ExecuteCommand sk key uuid sp) s0) = emitted s0 \<and>
    children (step (ExecuteCommand sk key uuid sp) s0) = children s0 \<and>
    jobs (step (ExecuteCommand sk key uuid sp) s0) = jobs s0 \<and>
    emitted s2 = emitted s1 @ [(sk, Error m)] \<and>
    children s2 = children s1 \<and> jobs s2 = jobs s1 \<and> job_logs s2 = job_logs s1 \<and>
    issued s2 = issued s1 \<and>
    map_of (pending s2) (length (issued s0)) = None"
proof -
  have inv0: "inv s0" unfolding s0_def by (rule inv_reachable)
  note f = execute_then_insert_fails[OF inv0 key mid, of s1 sk uuid sp r m s2]
  have "emitted (step (ExecuteCommand sk key uuid sp) s0) = emitted s0"
    "children (step (ExecuteCommand sk key uuid sp) s0) = children s0"
    "jobs (step (ExecuteCommand sk key uuid sp) s0) = jobs s0"
    by (simp_all add: execute_valid_key[OF key] db_query_def)
  moreover have "emitted s2 = emitted s1 @ [(sk, Error m)]"
    by (rule f(1)) (use r in \<open>simp_all add: s1_def s2_def\<close>)
  moreover have "children s2 = children s1"
    by (rule f(2)) (use r in \<open>simp_all add: s1_def s2_def\<close>)
  moreover have "jobs s2 = jobs s1"
    by (rule f(3)) (use r in \<open>simp_all add: s1_def s2_def\<close>)
  moreover have "job_logs s2 = job_logs s1"
    by (rule f(4)) (use r in \<open>simp_all add: s1_def s2_def\<close>)
  moreover have "issued s2 = issued s1"
    by (rule f(5)) (use r in \<open>simp_all add: s1_def s2_def\<close>)
  moreover have "map_of (pending s2) (length (issued s0)) = None"
    by (rule f(7)) (use r in \<open>simp_all add: s1_def s2_def\<close>)
  ultimately show ?thesis by simp
qed

text \<open>
  At a concrete run: job \<open>a\<close> runs for socket 0; socket 7 asks for \<^verbatim>\<open>vm-status\<close>, a chunk
  of job \<open>a\<close> arrives, and the insert for socket 7 is refused.
\<close>

theorem insert_failure_is_atomic_witness:
  "emitted (step (Resolved 1 (DbErr ''connection refused''))
      (run [Data 0 Stdout ''x'']
        (step (ExecuteCommand 7 ''vm-status'' ''b'' Spawned) (run started_a init)))) =
     [(0, JobStarted ''a'' ''echo Simulating make status...done.''),
      (7, Error ''connection refused'')] \<and>
   children (step (Resolved 1 (DbErr ''connection refused''))
      (run [Data 0 Stdout ''x'']
        (step (ExecuteCommand 7 ''vm-status'' ''b'' Spawned) (run started_a init)))) =
     [\<lparr>p_sock = 0, p_job = ''a'', p_open = True\<rparr>] \<and>
   map j_id (jobs (step (Resolved 1 (DbErr ''connection refused''))
      (run [Data 0 Stdout ''x'']
        (step (ExecuteCommand 7 ''vm-status'' ''b'' Spawned) (run started_a init))))) = [''a'']"
proof -
  have m: "\<forall>r. Resolved (length (issued (run started_a init))) r \<notin> set [Data 0 Stdout ''x'']"
    by simp
  have r: "DbErr ''connection refused'' = DbErr ''connection refused'' \<or>
      (\<exists>now. DbErr ''connection refused'' = DbOk now) \<and>
      ''b'' \<in> job_ids (run [Data 0 Stdout ''x'']
        (step (ExecuteCommand 7 ''vm-status'' ''b'' Spawned) (run started_a init))) \<and>
      ''connection refused'' = ''duplicate key value violates unique constraint jobs_pkey''"
    by simp
  show ?thesis
    using insert_failure_is_atomic[OF vm_status_own m r]
    unfolding started_a_state by (simp add: exec_defs)
qed

end
